theory Spec2Isabelle
  imports Main
begin

section \<open>Python values and exceptions\<close>

text \<open>
  The values that the coroutines of \<^verbatim>\<open>curio/sync.py\<close> return and that a predicate
  handed to \<^verbatim>\<open>Condition.wait_for\<close> may produce, with Python's truth test.
\<close>

datatype pyval = PyNone | PyBool bool | PyInt int | PyStr string | PyList "pyval list"

fun truthy :: "pyval \<Rightarrow> bool" where
  "truthy PyNone = False"
| "truthy (PyBool b) = b"
| "truthy (PyInt i) = (i \<noteq> 0)"
| "truthy (PyStr s) = (s \<noteq> [])"
| "truthy (PyList vs) = (vs \<noteq> [])"

datatype exn =
    AssertionError string
  | RuntimeError string
  | ValueError string
  | TypeError string
  | CancelledError
  | TaskTimeout

section \<open>Coroutines and the kernel traps\<close>

text \<open>
  A task is named by a number. Modelled from the spec: the wait queue \<^verbatim>\<open>kqueue\<close> of
  \<^verbatim>\<open>curio/kernel.py\<close>, which is not among the sources, is an ordered collection of the
  suspended tasks with a length, oldest first; as a condition it is true when it is not
  empty.
\<close>

type_synonym task = nat
type_synonym kqueue = "task list"

text \<open>
  The kernel's side of the state: \<open>ready\<close> is the kernel's ready queue, to which
  \<^verbatim>\<open>_reschedule_tasks\<close> moves the tasks it takes off a wait queue; \<open>obj\<close> is the
  synchronisation object the coroutine works on.
\<close>

record 'p kstate =
  obj :: 'p
  ready :: "task list"

text \<open>How a task suspended in \<^verbatim>\<open>_wait_on_queue\<close> continues.\<close>

datatype wake = Resumed | Cancelled | TimedOut

text \<open>
  A coroutine run up to its next suspension point: it has returned a value, raised an
  exception, or is suspended (with the state name given to the trap, the state it left
  behind, and its continuation, which is given the way it is woken and the state at that
  moment).
\<close>

datatype ('a, 's) coro =
    Return 'a 's
  | Raise exn 's
  | Suspend string 's "wake \<Rightarrow> 's \<Rightarrow> ('a, 's) coro"

text \<open>Sequencing (\<^verbatim>\<open>await c\<close>, then \<open>f\<close>): an exception of \<open>c\<close> skips \<open>f\<close>.\<close>

primrec bind :: "('a, 's) coro \<Rightarrow> ('a \<Rightarrow> 's \<Rightarrow> ('b, 's) coro) \<Rightarrow> ('b, 's) coro" where
  "bind (Return v s) f = f v s"
| "bind (Raise e s) f = Raise e s"
| "bind (Suspend tag s k) f = Suspend tag s (\<lambda>w s'. bind (k w s') f)"

text \<open>
  \<^verbatim>\<open>try: c finally: h\<close>: \<open>h\<close> runs on every exit of \<open>c\<close>; afterwards the value or the
  exception of \<open>c\<close> continues, unless \<open>h\<close> raised itself.
\<close>

primrec try_finally :: "('a, 's) coro \<Rightarrow> ('s \<Rightarrow> ('b, 's) coro) \<Rightarrow> ('a, 's) coro" where
  "try_finally (Return v s) h = bind (h s) (\<lambda>_ s'. Return v s')"
| "try_finally (Raise e s) h = bind (h s) (\<lambda>_ s'. Raise e s')"
| "try_finally (Suspend tag s k) h = Suspend tag s (\<lambda>w s'. try_finally (k w s') h)"

text \<open>
  A coroutine of an object \<open>'p\<close> that is reached through a field of another object
  \<open>'s\<close> (\<^verbatim>\<open>await self._lock.acquire()\<close>): \<open>get\<close> reads the field and \<open>put\<close> writes
  it. The continuation reads the field again when the task is woken, since other tasks
  may have changed it.
\<close>

primrec zoom :: "('s \<Rightarrow> 'p) \<Rightarrow> ('p \<Rightarrow> 's \<Rightarrow> 's) \<Rightarrow> ('a, 'p) coro \<Rightarrow> 's \<Rightarrow> ('a, 's) coro" where
  "zoom get put (Return v p) s = Return v (put p s)"
| "zoom get put (Raise e p) s = Raise e (put p s)"
| "zoom get put (Suspend tag p k) s =
     Suspend tag (put p s) (\<lambda>w s'. zoom get put (k w (get s')) s')"

text \<open>
  Modelled from the spec: \<^verbatim>\<open>_wait_on_queue(queue, state)\<close> of \<^verbatim>\<open>curio/traps.py\<close>, which
  is not among the sources. It suspends the current task onto the queue, returns
  normally on resumption, and propagates a cancellation or timeout delivered while the
  task is suspended, the task being removed from the queue then. The queue is given by
  its update function on the state.
\<close>

definition wait_on_queue ::
  "((kqueue \<Rightarrow> kqueue) \<Rightarrow> 's \<Rightarrow> 's) \<Rightarrow> string \<Rightarrow> task \<Rightarrow> 's \<Rightarrow> (pyval, 's) coro" where
  "wait_on_queue upd tag t s =
     Suspend tag (upd (\<lambda>q. q @ [t]) s)
       (\<lambda>w s'. case w of
            Resumed \<Rightarrow> Return PyNone s'
          | Cancelled \<Rightarrow> Raise CancelledError (upd (remove1 t) s')
          | TimedOut \<Rightarrow> Raise TaskTimeout (upd (remove1 t) s'))"

text \<open>
  Modelled from the spec: \<^verbatim>\<open>_reschedule_tasks(queue, n)\<close> of \<^verbatim>\<open>curio/traps.py\<close>, which
  is not among the sources. It resumes up to \<open>n\<close> tasks from the front of the queue, in
  FIFO order (all of them when \<open>n\<close> exceeds the length): they leave the queue and join
  the kernel's ready queue. The caller is not suspended.
\<close>

definition reschedule_tasks ::
  "('p \<Rightarrow> kqueue) \<Rightarrow> ((kqueue \<Rightarrow> kqueue) \<Rightarrow> 'p \<Rightarrow> 'p) \<Rightarrow> nat \<Rightarrow> 'p kstate \<Rightarrow> 'p kstate" where
  "reschedule_tasks q upd n s =
     \<lparr>obj = upd (drop n) (obj s), ready = ready s @ take n (q (obj s))\<rparr>"

section \<open>Event\<close>

text \<open>
  \<^verbatim>\<open>
  async def wait(self):
      if self._set:
          return
      await _wait_on_queue(self._waiting, 'EVENT_WAIT')

  async def set(self):
      self._set = True
      await _reschedule_tasks(self._waiting, len(self._waiting))
  \<close>
\<close>

record event =
  event_set :: bool
  event_waiting :: kqueue

definition Event_init :: event where
  "Event_init = \<lparr>event_set = False, event_waiting = []\<rparr>"

definition Event_is_set :: "event kstate \<Rightarrow> bool" where
  "Event_is_set s = event_set (obj s)"

definition Event_clear :: "event kstate \<Rightarrow> event kstate" where
  "Event_clear s = s\<lparr>obj := (obj s)\<lparr>event_set := False\<rparr>\<rparr>"

definition Event_wait :: "task \<Rightarrow> event kstate \<Rightarrow> (pyval, event kstate) coro" where
  "Event_wait t s =
     (if event_set (obj s) then Return PyNone s
      else wait_on_queue (\<lambda>f. obj_update (event_waiting_update f)) ''EVENT_WAIT'' t s)"

definition Event_set :: "event kstate \<Rightarrow> (pyval, event kstate) coro" where
  "Event_set s =
     (let s1 = s\<lparr>obj := (obj s)\<lparr>event_set := True\<rparr>\<rparr>
      in Return PyNone
           (reschedule_tasks event_waiting event_waiting_update
              (length (event_waiting (obj s1))) s1))"

section \<open>Lock\<close>

text \<open>
  \<^verbatim>\<open>
  async def acquire(self):
      if self._acquired:
          await _wait_on_queue(self._waiting, 'LOCK_ACQUIRE')
      self._acquired = True
      return True

  async def release(self):
      assert self._acquired, 'Lock not acquired'
      if self._waiting:
          await _reschedule_tasks(self._waiting, n=1)
      else:
          self._acquired = False
  \<close>
\<close>

record lock =
  lock_acquired :: bool
  lock_waiting :: kqueue

definition Lock_init :: lock where
  "Lock_init = \<lparr>lock_acquired = False, lock_waiting = []\<rparr>"

definition Lock_locked :: "lock kstate \<Rightarrow> bool" where
  "Lock_locked s = lock_acquired (obj s)"

definition Lock_acquire :: "task \<Rightarrow> lock kstate \<Rightarrow> (pyval, lock kstate) coro" where
  "Lock_acquire t s =
     bind (if lock_acquired (obj s)
           then wait_on_queue (\<lambda>f. obj_update (lock_waiting_update f)) ''LOCK_ACQUIRE'' t s
           else Return PyNone s)
          (\<lambda>_ s'. Return (PyBool True) (s'\<lparr>obj := (obj s')\<lparr>lock_acquired := True\<rparr>\<rparr>))"

definition Lock_release :: "lock kstate \<Rightarrow> (pyval, lock kstate) coro" where
  "Lock_release s =
     (if \<not> lock_acquired (obj s) then Raise (AssertionError ''Lock not acquired'') s
      else if lock_waiting (obj s) \<noteq> []
      then Return PyNone (reschedule_tasks lock_waiting lock_waiting_update 1 s)
      else Return PyNone (s\<lparr>obj := (obj s)\<lparr>lock_acquired := False\<rparr>\<rparr>))"

section \<open>Semaphore and BoundedSemaphore\<close>

text \<open>
  \<^verbatim>\<open>
  async def acquire(self):
      if self._value <= 0:
          await _wait_on_queue(self._waiting, 'SEMA_ACQUIRE')
      else:
          self._value -= 1
      return True

  async def release(self):
      if self._waiting:
          await _reschedule_tasks(self._waiting, n=1)
      else:
          self._value += 1

  class BoundedSemaphore(Semaphore):
      async def release(self):
          if self._value >= self._bound_value:
              raise ValueError('BoundedSemaphore released too many times')
          await super().release()
  \<close>
  The value is a Python integer, not bounded below by the constructor. The operations of
  \<^verbatim>\<open>Semaphore\<close> are defined on every record that extends \<open>semaphore\<close>, so that
  \<^verbatim>\<open>BoundedSemaphore\<close> inherits them.
\<close>

record semaphore =
  sem_value :: int
  sem_waiting :: kqueue

record bounded_semaphore = semaphore +
  bound_value :: int

definition Semaphore_init :: "int \<Rightarrow> semaphore" where
  "Semaphore_init v = \<lparr>sem_value = v, sem_waiting = []\<rparr>"

definition BoundedSemaphore_init :: "int \<Rightarrow> bounded_semaphore" where
  "BoundedSemaphore_init v = \<lparr>sem_value = v, sem_waiting = [], bound_value = v\<rparr>"

definition Semaphore_locked :: "'x semaphore_scheme kstate \<Rightarrow> bool" where
  "Semaphore_locked s = (sem_value (obj s) = 0)"

definition Semaphore_acquire ::
  "task \<Rightarrow> 'x semaphore_scheme kstate \<Rightarrow> (pyval, 'x semaphore_scheme kstate) coro" where
  "Semaphore_acquire t s =
     bind (if sem_value (obj s) \<le> 0
           then wait_on_queue (\<lambda>f. obj_update (sem_waiting_update f)) ''SEMA_ACQUIRE'' t s
           else Return PyNone (s\<lparr>obj := (obj s)\<lparr>sem_value := sem_value (obj s) - 1\<rparr>\<rparr>))
          (\<lambda>_ s'. Return (PyBool True) s')"

definition Semaphore_release ::
  "'x semaphore_scheme kstate \<Rightarrow> (pyval, 'x semaphore_scheme kstate) coro" where
  "Semaphore_release s =
     (if sem_waiting (obj s) \<noteq> []
      then Return PyNone (reschedule_tasks sem_waiting sem_waiting_update 1 s)
      else Return PyNone (s\<lparr>obj := (obj s)\<lparr>sem_value := sem_value (obj s) + 1\<rparr>\<rparr>))"

definition BoundedSemaphore_release ::
  "bounded_semaphore kstate \<Rightarrow> (pyval, bounded_semaphore kstate) coro" where
  "BoundedSemaphore_release s =
     (if sem_value (obj s) \<ge> bound_value (obj s)
      then Raise (ValueError ''BoundedSemaphore released too many times'') s
      else Semaphore_release s)"

section \<open>Condition\<close>

text \<open>
  \<^verbatim>\<open>
  async def acquire(self):
      await self._lock.acquire()

  async def release(self):
      await self._lock.release()

  async def wait(self):
      if not self.locked():
          raise RuntimeError("Can't wait on unacquired lock")
      await self.release()
      try:
          await _wait_on_queue(self._waiting, 'COND_WAIT')
      finally:
          await self.acquire()

  async def wait_for(self, predicate):
      while True:
          result = predicate()
          if result:
              return result
          await self.wait()

  async def notify(self, n=1):
      if not self.locked():
          raise RuntimeError("Can't notify on unacquired lock")
      await _reschedule_tasks(self._waiting, n=n)
  \<close>
  \<^verbatim>\<open>self._lock\<close> is the lock the condition was given or the one it made. The
  condition's operations reach it through \<open>the_lock\<close> and \<open>set_lock\<close>; other tasks
  change it by the same operations. \<^verbatim>\<open>_LockBase.__aexit__\<close>, the exit of an
  \<^verbatim>\<open>async with\<close> block, is a call of \<^verbatim>\<open>release\<close>.
\<close>

record condition =
  cond_lock :: lock
  cond_waiting :: kqueue

definition Condition_init :: "lock option \<Rightarrow> condition" where
  "Condition_init l =
     \<lparr>cond_lock = (case l of None \<Rightarrow> Lock_init | Some given \<Rightarrow> given), cond_waiting = []\<rparr>"

definition the_lock :: "condition kstate \<Rightarrow> lock kstate" where
  "the_lock s = \<lparr>obj = cond_lock (obj s), ready = ready s\<rparr>"

definition set_lock :: "lock kstate \<Rightarrow> condition kstate \<Rightarrow> condition kstate" where
  "set_lock l s = \<lparr>obj = (obj s)\<lparr>cond_lock := obj l\<rparr>, ready = ready l\<rparr>"

definition Condition_locked :: "condition kstate \<Rightarrow> bool" where
  "Condition_locked s = Lock_locked (the_lock s)"

definition Condition_acquire :: "task \<Rightarrow> condition kstate \<Rightarrow> (pyval, condition kstate) coro" where
  "Condition_acquire t s =
     bind (zoom the_lock set_lock (Lock_acquire t (the_lock s)) s) (\<lambda>_ s'. Return PyNone s')"

definition Condition_release :: "condition kstate \<Rightarrow> (pyval, condition kstate) coro" where
  "Condition_release s =
     bind (zoom the_lock set_lock (Lock_release (the_lock s)) s) (\<lambda>_ s'. Return PyNone s')"

definition Condition_wait :: "task \<Rightarrow> condition kstate \<Rightarrow> (pyval, condition kstate) coro" where
  "Condition_wait t s =
     (if \<not> Condition_locked s then Raise (RuntimeError ''Can't wait on unacquired lock'') s
      else bind (Condition_release s)
             (\<lambda>_ s1. try_finally
                (wait_on_queue (\<lambda>f. obj_update (cond_waiting_update f)) ''COND_WAIT'' t s1)
                (Condition_acquire t)))"

text \<open>
  The loop of \<^verbatim>\<open>wait_for\<close> may run for ever, so it is given fuel: \<open>None\<close> is returned
  when the fuel runs out, \<open>Some\<close> when the loop returns. The predicate is any Python
  callable; \<open>predicate i\<close> is what its evaluation number \<open>i\<close> gives, a value or an
  exception.
\<close>

fun Condition_wait_for ::
  "nat \<Rightarrow> (nat \<Rightarrow> exn + pyval) \<Rightarrow> nat \<Rightarrow> task \<Rightarrow> condition kstate
     \<Rightarrow> (pyval option, condition kstate) coro" where
  "Condition_wait_for 0 predicate i t s = Return None s"
| "Condition_wait_for (Suc fuel) predicate i t s =
     (case predicate i of
        Inl e \<Rightarrow> Raise e s
      | Inr result \<Rightarrow>
          if truthy result then Return (Some result) s
          else bind (Condition_wait t s)
                 (\<lambda>_ s'. Condition_wait_for fuel predicate (Suc i) t s'))"

definition Condition_notify :: "nat \<Rightarrow> condition kstate \<Rightarrow> (pyval, condition kstate) coro" where
  "Condition_notify n s =
     (if \<not> Condition_locked s then Raise (RuntimeError ''Can't notify on unacquired lock'') s
      else Return PyNone (reschedule_tasks cond_waiting cond_waiting_update n s))"

definition Condition_notify_all :: "condition kstate \<Rightarrow> (pyval, condition kstate) coro" where
  "Condition_notify_all s = Condition_notify (length (cond_waiting (obj s))) s"

section \<open>The kernel: tasks calling coroutines\<close>

text \<open>
  Modelled from the spec: the scheduler of \<^verbatim>\<open>curio/kernel.py\<close>, which is not among the
  sources. Scheduling is cooperative and single-threaded: a task runs until it suspends
  and is never preempted, so a call runs up to its first suspension point in one step. A
  suspended task continues when the kernel resumes it after another task has
  rescheduled it (\<open>Resume\<close>), or when a cancellation or a timeout is delivered to it
  while it is still suspended on its queue (\<open>Cancel\<close>, \<open>Timeout\<close>). The kernel keeps,
  for each suspended task, the call it is in and its continuation. Which task runs next
  is left open: every sequence of events is a schedule.
\<close>

datatype 'c kevent = Call task 'c | Resume task | Cancel task | Timeout task

datatype outcome = Returned pyval | Raised exn | Parked string

type_synonym 'p cont = "wake \<Rightarrow> 'p kstate \<Rightarrow> (pyval, 'p kstate) coro"

record ('c, 'p) system =
  state :: "'p kstate"
  suspended :: "task \<Rightarrow> ('c \<times> 'p cont) option"

definition boot :: "'p \<Rightarrow> ('c, 'p) system" where
  "boot p = \<lparr>state = \<lparr>obj = p, ready = []\<rparr>, suspended = (\<lambda>_. None)\<rparr>"

text \<open>What a step shows: the task that ran, the call it is in, and how the run ended.\<close>

type_synonym 'c observation = "task \<times> 'c \<times> outcome"

fun settle ::
  "task \<Rightarrow> 'c \<Rightarrow> (pyval, 'p kstate) coro \<Rightarrow> ('c, 'p) system
     \<Rightarrow> ('c, 'p) system \<times> 'c observation" where
  "settle t c (Return v s) sys =
     (\<lparr>state = s, suspended = (suspended sys)(t := None)\<rparr>, (t, c, Returned v))"
| "settle t c (Raise e s) sys =
     (\<lparr>state = s, suspended = (suspended sys)(t := None)\<rparr>, (t, c, Raised e))"
| "settle t c (Suspend tag s k) sys =
     (\<lparr>state = s, suspended = (suspended sys)(t \<mapsto> (c, k))\<rparr>, (t, c, Parked tag))"

definition deliver ::
  "wake \<Rightarrow> task \<Rightarrow> ('c, 'p) system \<Rightarrow> (('c, 'p) system \<times> 'c observation) option" where
  "deliver w t sys =
     (case suspended sys t of
        None \<Rightarrow> None
      | Some (c, k) \<Rightarrow>
          if t \<in> set (ready (state sys)) then None
          else Some (settle t c (k w (state sys)) sys))"

fun kernel_step ::
  "('c \<Rightarrow> task \<Rightarrow> 'p kstate \<Rightarrow> (pyval, 'p kstate) coro) \<Rightarrow> 'c kevent \<Rightarrow> ('c, 'p) system
     \<Rightarrow> (('c, 'p) system \<times> 'c observation) option" where
  "kernel_step run (Call t c) sys =
     (case suspended sys t of
        None \<Rightarrow> Some (settle t c (run c t (state sys)) sys)
      | Some _ \<Rightarrow> None)"
| "kernel_step run (Resume t) sys =
     (case suspended sys t of
        None \<Rightarrow> None
      | Some (c, k) \<Rightarrow>
          if t \<in> set (ready (state sys))
          then Some (settle t c
                 (k Resumed ((state sys)\<lparr>ready := remove1 t (ready (state sys))\<rparr>)) sys)
          else None)"
| "kernel_step run (Cancel t) sys = deliver Cancelled t sys"
| "kernel_step run (Timeout t) sys = deliver TimedOut t sys"

fun kernel_run ::
  "('c \<Rightarrow> task \<Rightarrow> 'p kstate \<Rightarrow> (pyval, 'p kstate) coro) \<Rightarrow> 'c kevent list \<Rightarrow> ('c, 'p) system
     \<Rightarrow> (('c, 'p) system \<times> 'c observation list) option" where
  "kernel_run run [] sys = Some (sys, [])"
| "kernel_run run (e # es) sys =
     (case kernel_step run e sys of
        None \<Rightarrow> None
      | Some (sys1, ob) \<Rightarrow>
          (case kernel_run run es sys1 of
             None \<Rightarrow> None
           | Some (sys2, obs) \<Rightarrow> Some (sys2, ob # obs)))"

text \<open>The calls that tasks make on each kind of object.\<close>

datatype lock_call = Acquire | Release

fun Lock_run :: "lock_call \<Rightarrow> task \<Rightarrow> lock kstate \<Rightarrow> (pyval, lock kstate) coro" where
  "Lock_run Acquire t s = Lock_acquire t s"
| "Lock_run Release t s = Lock_release s"

fun Semaphore_run ::
  "lock_call \<Rightarrow> task \<Rightarrow> semaphore kstate \<Rightarrow> (pyval, semaphore kstate) coro" where
  "Semaphore_run Acquire t s = Semaphore_acquire t s"
| "Semaphore_run Release t s = Semaphore_release s"

fun BoundedSemaphore_run ::
  "lock_call \<Rightarrow> task \<Rightarrow> bounded_semaphore kstate \<Rightarrow> (pyval, bounded_semaphore kstate) coro" where
  "BoundedSemaphore_run Acquire t s = Semaphore_acquire t s"
| "BoundedSemaphore_run Release t s = BoundedSemaphore_release s"

datatype condition_call = CAcquire | CRelease | CWait | CNotify nat | CNotifyAll

fun Condition_run ::
  "condition_call \<Rightarrow> task \<Rightarrow> condition kstate \<Rightarrow> (pyval, condition kstate) coro" where
  "Condition_run CAcquire t s = Condition_acquire t s"
| "Condition_run CRelease t s = Condition_release s"
| "Condition_run CWait t s = Condition_wait t s"
| "Condition_run (CNotify n) t s = Condition_notify n s"
| "Condition_run CNotifyAll t s = Condition_notify_all s"

section \<open>The adapter of synchronous context managers\<close>

text \<open>
  What \<^verbatim>\<open>abide\<close> asks of a Python object: the name of its type, whether
  \<^verbatim>\<open>iscoroutinefunction\<close> holds of it, the attribute names for which \<^verbatim>\<open>hasattr\<close>
  holds, and whether it is callable.
\<close>

record pyobj =
  type_name :: string
  coroutine_function :: bool
  attributes :: "string list"
  callable :: bool


text \<open>
  Modelled from the spec: the completion cell \<^verbatim>\<open>workers._FutureLess\<close>, which is not
  among the sources: a write-once cell that holds a value or a failure, with a
  completion observer. Reading a cell that holds nothing is an error of its own; it
  does not happen after \<^verbatim>\<open>_future_wait\<close> has returned.
\<close>

record future =
  fut_outcome :: "(exn + pyval) option"
  fut_callback :: bool

definition Future_init :: future where
  "Future_init = \<lparr>fut_outcome = None, fut_callback = False\<rparr>"

definition set_result :: "pyval \<Rightarrow> future \<Rightarrow> future" where
  "set_result v f = f\<lparr>fut_outcome := Some (Inr v)\<rparr>"

definition set_exception :: "exn \<Rightarrow> future \<Rightarrow> future" where
  "set_exception e f = f\<lparr>fut_outcome := Some (Inl e)\<rparr>"

definition add_done_callback :: "future \<Rightarrow> future" where
  "add_done_callback f = f\<lparr>fut_callback := True\<rparr>"

definition future_result :: "future \<Rightarrow> 's \<Rightarrow> (pyval, 's) coro" where
  "future_result f s =
     (case fut_outcome f of
        Some (Inr v) \<Rightarrow> Return v s
      | Some (Inl e) \<Rightarrow> Raise e s
      | None \<Rightarrow> Raise (RuntimeError ''future has no result'') s)"

record contextadapt =
  manager :: pyobj
  start_evt :: bool
  finish_evt :: bool
  finish_args :: "pyval list"
  enter_future :: future
  exit_future :: future

definition contextadapt_init :: "pyobj \<Rightarrow> contextadapt" where
  "contextadapt_init m =
     \<lparr>manager = m, start_evt = False, finish_evt = False, finish_args = [],
      enter_future = Future_init, exit_future = Future_init\<rparr>"

text \<open>
  What the underlying manager does when called: the outcome of \<^verbatim>\<open>__enter__()\<close> and,
  for each argument tuple, the outcome of \<^verbatim>\<open>__exit__(*args)\<close>. Every exception of
  \<open>exn\<close> is an \<^verbatim>\<open>Exception\<close>, so \<^verbatim>\<open>except Exception\<close> catches it.
\<close>

record manager_methods =
  m_enter :: "exn + pyval"
  m_exit :: "pyval list \<Rightarrow> exn + pyval"

text \<open>
  The worker thread that runs \<^verbatim>\<open>_handler\<close>: not yet spawned, blocked in
  \<^verbatim>\<open>start_evt.wait()\<close>, blocked in \<^verbatim>\<open>finish_evt.wait()\<close>, or finished. \<open>thread_calls\<close>
  lists the calls of the manager's methods made on that thread, in order.
\<close>

datatype handler_pc = NotSpawned | AtStart | AtFinish | Finished

datatype manager_call = Enter_call | Exit_call "pyval list"

record adapter_world =
  self :: contextadapt
  worker :: handler_pc
  thread_calls :: "manager_call list"

text \<open>
  \<^verbatim>\<open>
  def _handler(self):
      self.start_evt.wait()
      try:
          self.enter_future.set_result(self.manager.__enter__())
      except Exception as e:
          self.enter_future.set_exception(e)
          return

      self.finish_evt.wait()
      try:
          self.exit_future.set_result(self.manager.__exit__(*self.finish_args))
      except Exception as e:
          self.exit_future.set_exception(e)
  \<close>
  One step of \<^verbatim>\<open>_handler\<close> on its thread, from one blocking wait to the next; \<open>None\<close>
  when the thread cannot move (the signal it waits for is not set, or it is not
  running).
\<close>

definition handler_step :: "manager_methods \<Rightarrow> adapter_world \<Rightarrow> adapter_world option" where
  "handler_step m s =
     (case worker s of
        NotSpawned \<Rightarrow> None
      | Finished \<Rightarrow> None
      | AtStart \<Rightarrow>
          if \<not> start_evt (self s) then None
          else
            (let s1 = s\<lparr>thread_calls := thread_calls s @ [Enter_call]\<rparr>
             in case m_enter m of
                  Inr v \<Rightarrow>
                    Some (s1\<lparr>self := (self s1)\<lparr>enter_future := set_result v (enter_future (self s1))\<rparr>,
                             worker := AtFinish\<rparr>)
                | Inl e \<Rightarrow>
                    Some (s1\<lparr>self := (self s1)\<lparr>enter_future := set_exception e (enter_future (self s1))\<rparr>,
                             worker := Finished\<rparr>))
      | AtFinish \<Rightarrow>
          if \<not> finish_evt (self s) then None
          else
            (let args = finish_args (self s);
                 s1 = s\<lparr>thread_calls := thread_calls s @ [Exit_call args]\<rparr>
             in case m_exit m args of
                  Inr v \<Rightarrow>
                    Some (s1\<lparr>self := (self s1)\<lparr>exit_future := set_result v (exit_future (self s1))\<rparr>,
                             worker := Finished\<rparr>)
                | Inl e \<Rightarrow>
                    Some (s1\<lparr>self := (self s1)\<lparr>exit_future := set_exception e (exit_future (self s1))\<rparr>,
                             worker := Finished\<rparr>)))"

text \<open>
  \<^verbatim>\<open>try: c except (CancelledError, TaskTimeout): h\<close>, with the exceptions caught given
  by a predicate.
\<close>

primrec try_except ::
  "('a, 's) coro \<Rightarrow> (exn \<Rightarrow> bool) \<Rightarrow> (exn \<Rightarrow> 's \<Rightarrow> ('a, 's) coro) \<Rightarrow> ('a, 's) coro" where
  "try_except (Return v s) caught h = Return v s"
| "try_except (Raise e s) caught h = (if caught e then h e s else Raise e s)"
| "try_except (Suspend tag s k) caught h = Suspend tag s (\<lambda>w s'. try_except (k w s') caught h)"

text \<open>
  Modelled from the spec: \<^verbatim>\<open>_future_wait(future, event)\<close> of \<^verbatim>\<open>curio/traps.py\<close>, which
  is not among the sources. It sets the thread-level signal, so that the worker
  proceeds, and suspends the task until the cell resolves; a cancellation or timeout
  delivered meanwhile propagates.
\<close>

definition future_wait :: "('s \<Rightarrow> 's) \<Rightarrow> 's \<Rightarrow> (pyval, 's) coro" where
  "future_wait set_event s =
     Suspend ''FUTURE_WAIT'' (set_event s)
       (\<lambda>w s'. case w of
            Resumed \<Rightarrow> Return PyNone s'
          | Cancelled \<Rightarrow> Raise CancelledError s'
          | TimedOut \<Rightarrow> Raise TaskTimeout s')"

definition cancelled_or_timeout :: "exn \<Rightarrow> bool" where
  "cancelled_or_timeout e = (e = CancelledError \<or> e = TaskTimeout)"

text \<open>
  \<^verbatim>\<open>
  async def __aenter__(self):
      await spawn(workers.run_in_thread(self._handler))
      try:
          await _future_wait(self.enter_future, self.start_evt)
          return self.enter_future.result()
      except (CancelledError, TaskTimeout):
          self.exit_future.add_done_callback(lambda f: None)
          self.finish_args = (None, None, None)
          self.finish_evt.set()
          raise

  async def __aexit__(self, *args):
      self.finish_args = args
      await _future_wait(self.exit_future, self.finish_evt)
      return self.exit_future.result()
  \<close>
  \<^verbatim>\<open>spawn(workers.run_in_thread(self._handler))\<close> starts the worker thread, which
  blocks in \<^verbatim>\<open>start_evt.wait()\<close> first.
\<close>

definition aenter :: "adapter_world \<Rightarrow> (pyval, adapter_world) coro" where
  "aenter s =
     (let s1 = s\<lparr>worker := AtStart\<rparr>
      in try_except
           (bind (future_wait (\<lambda>u. u\<lparr>self := (self u)\<lparr>start_evt := True\<rparr>\<rparr>) s1)
              (\<lambda>_ s2. future_result (enter_future (self s2)) s2))
           cancelled_or_timeout
           (\<lambda>e s3. Raise e
              (s3\<lparr>self := (self s3)
                   \<lparr>exit_future := add_done_callback (exit_future (self s3)),
                    finish_args := [PyNone, PyNone, PyNone],
                    finish_evt := True\<rparr>\<rparr>)))"

definition aexit :: "pyval list \<Rightarrow> adapter_world \<Rightarrow> (pyval, adapter_world) coro" where
  "aexit args s =
     (let s1 = s\<lparr>self := (self s)\<lparr>finish_args := args\<rparr>\<rparr>
      in bind (future_wait (\<lambda>u. u\<lparr>self := (self u)\<lparr>finish_evt := True\<rparr>\<rparr>) s1)
           (\<lambda>_ s2. future_result (exit_future (self s2)) s2))"

text \<open>
  One use of the adapter, as \<^verbatim>\<open>async with\<close> makes it. On the cooperative side the
  task calls \<^verbatim>\<open>__aenter__\<close> and, only if that returned, later \<^verbatim>\<open>__aexit__\<close> with the
  exit arguments; \<open>use\<close> records where the task is. The worker thread runs beside it.
  Modelled from the spec: the scheduling of both. The thread moves from one blocking
  wait to the next when the signal it waits for is set (\<open>ThreadRuns\<close>); a task
  suspended in \<^verbatim>\<open>_future_wait\<close> is resumed once its cell is resolved (\<open>FutureDone\<close>),
  and a cancellation or a timeout can be delivered to it as long as it is suspended
  (\<open>CancelTask\<close>, \<open>TimeoutTask\<close>). Between two blocking waits the thread touches only
  the cell it resolves, which the task does not touch meanwhile, so the steps of thread
  and task are taken one at a time, in any order.
\<close>

datatype use_status =
    Fresh
  | Entering "wake \<Rightarrow> adapter_world \<Rightarrow> (pyval, adapter_world) coro"
  | Entered pyval
  | EnterRaised exn
  | Exiting "wake \<Rightarrow> adapter_world \<Rightarrow> (pyval, adapter_world) coro"
  | Exited outcome

record adapter_system =
  world :: adapter_world
  use :: use_status

definition adapter_boot :: "pyobj \<Rightarrow> adapter_system" where
  "adapter_boot m =
     \<lparr>world = \<lparr>self = contextadapt_init m, worker = NotSpawned, thread_calls = []\<rparr>,
      use = Fresh\<rparr>"

datatype adapter_event =
  DoEnter | DoExit "pyval list" | ThreadRuns | FutureDone | CancelTask | TimeoutTask

fun settle_enter :: "(pyval, adapter_world) coro \<Rightarrow> adapter_system" where
  "settle_enter (Return v w) = \<lparr>world = w, use = Entered v\<rparr>"
| "settle_enter (Raise e w) = \<lparr>world = w, use = EnterRaised e\<rparr>"
| "settle_enter (Suspend tag w k) = \<lparr>world = w, use = Entering k\<rparr>"

fun settle_exit :: "(pyval, adapter_world) coro \<Rightarrow> adapter_system" where
  "settle_exit (Return v w) = \<lparr>world = w, use = Exited (Returned v)\<rparr>"
| "settle_exit (Raise e w) = \<lparr>world = w, use = Exited (Raised e)\<rparr>"
| "settle_exit (Suspend tag w k) = \<lparr>world = w, use = Exiting k\<rparr>"

definition wake_task :: "wake \<Rightarrow> adapter_system \<Rightarrow> adapter_system option" where
  "wake_task w sys =
     (case use sys of
        Entering k \<Rightarrow> Some (settle_enter (k w (world sys)))
      | Exiting k \<Rightarrow> Some (settle_exit (k w (world sys)))
      | _ \<Rightarrow> None)"

fun adapter_step :: "manager_methods \<Rightarrow> adapter_event \<Rightarrow> adapter_system \<Rightarrow> adapter_system option" where
  "adapter_step m DoEnter sys =
     (case use sys of Fresh \<Rightarrow> Some (settle_enter (aenter (world sys))) | _ \<Rightarrow> None)"
| "adapter_step m (DoExit args) sys =
     (case use sys of Entered v \<Rightarrow> Some (settle_exit (aexit args (world sys))) | _ \<Rightarrow> None)"
| "adapter_step m ThreadRuns sys =
     (case handler_step m (world sys) of
        None \<Rightarrow> None
      | Some w \<Rightarrow> Some (sys\<lparr>world := w\<rparr>))"
| "adapter_step m FutureDone sys =
     (case use sys of
        Entering k \<Rightarrow>
          if fut_outcome (enter_future (self (world sys))) = None then None
          else wake_task Resumed sys
      | Exiting k \<Rightarrow>
          if fut_outcome (exit_future (self (world sys))) = None then None
          else wake_task Resumed sys
      | _ \<Rightarrow> None)"
| "adapter_step m CancelTask sys = wake_task Cancelled sys"
| "adapter_step m TimeoutTask sys = wake_task TimedOut sys"

fun adapter_run :: "manager_methods \<Rightarrow> adapter_event list \<Rightarrow> adapter_system \<Rightarrow> adapter_system option" where
  "adapter_run m [] sys = Some sys"
| "adapter_run m (e # es) sys =
     (case adapter_step m e sys of None \<Rightarrow> None | Some sys1 \<Rightarrow> adapter_run m es sys1)"

text \<open>
  The worker thread run on its own for at most \<open>n\<close> steps, as far as it can move.
\<close>

fun run_thread :: "nat \<Rightarrow> manager_methods \<Rightarrow> adapter_world \<Rightarrow> adapter_world" where
  "run_thread 0 m w = w"
| "run_thread (Suc n) m w =
     (case handler_step m w of None \<Rightarrow> w | Some w1 \<Rightarrow> run_thread n m w1)"

text \<open>
  Inputs for the examples: a thread lock as the underlying object, a manager whose
  methods return, and a manager whose \<^verbatim>\<open>__enter__\<close> raises.
\<close>

definition a_lock :: pyobj where
  "a_lock = \<lparr>type_name = ''lock'', coroutine_function = False,
              attributes = [''__enter__'', ''__exit__''], callable = False\<rparr>"

definition working_manager :: manager_methods where
  "working_manager = \<lparr>m_enter = Inr (PyBool True), m_exit = (\<lambda>args. Inr PyNone)\<rparr>"

definition raising_manager :: manager_methods where
  "raising_manager = \<lparr>m_enter = Inl (RuntimeError ''boom''), m_exit = (\<lambda>args. Inr PyNone)\<rparr>"

section \<open>abide\<close>




section \<open>Invariants and observations\<close>

text \<open>
  A coroutine keeps a property of the state when every state it leaves behind (where it
  suspends, returns or raises) has the property, given that the states in which it is
  woken have it. A system keeps the property when its state has it and the continuation
  of every suspended task keeps it.
\<close>

primrec coro_keeps :: "('s \<Rightarrow> bool) \<Rightarrow> ('a, 's) coro \<Rightarrow> bool" where
  "coro_keeps P (Return v s) = P s"
| "coro_keeps P (Raise e s) = P s"
| "coro_keeps P (Suspend tag s k) = (P s \<and> (\<forall>w s'. P s' \<longrightarrow> coro_keeps P (k w s')))"

definition sys_keeps :: "('p kstate \<Rightarrow> bool) \<Rightarrow> ('c, 'p) system \<Rightarrow> bool" where
  "sys_keeps P sys =
     (P (state sys) \<and>
      (\<forall>t c k. suspended sys t = Some (c, k) \<longrightarrow> (\<forall>w s. P s \<longrightarrow> coro_keeps P (k w s))))"

text \<open>The invariant of a lock: nobody waits for a lock that is free.\<close>

definition lock_invariant :: "lock \<Rightarrow> bool" where
  "lock_invariant l = (\<not> lock_acquired l \<longrightarrow> lock_waiting l = [])"

text \<open>The invariant of a semaphore: nobody waits while a permit is left.\<close>

definition semaphore_invariant :: "'x semaphore_scheme \<Rightarrow> bool" where
  "semaphore_invariant p = (sem_waiting p \<noteq> [] \<longrightarrow> sem_value p \<le> 0)"

text \<open>
  Reading a schedule and its observations: the events that are calls of a given
  operation, and the steps that end with the task suspended.
\<close>

fun is_call :: "'c \<Rightarrow> 'c kevent \<Rightarrow> bool" where
  "is_call c (Call t c') = (c = c')"
| "is_call c (Resume t) = False"
| "is_call c (Cancel t) = False"
| "is_call c (Timeout t) = False"

fun suspends :: "'c observation \<Rightarrow> bool" where
  "suspends (t, c, Parked tag) = True"
| "suspends (t, c, Returned v) = False"
| "suspends (t, c, Raised e) = False"

text \<open>
  The coroutines of a condition, written out. \<open>lock_taken\<close>, \<open>lock_queue\<close> and
  \<open>cond_queue\<close> are the changes they make to the state; \<open>exit_as\<close> is how a coroutine
  ends after the wake-up it was given; \<open>acquire_cont\<close> is the continuation of
  \<^verbatim>\<open>Condition.acquire\<close> suspended on the lock's queue, \<open>wait_cont\<close> that of
  \<^verbatim>\<open>Condition.wait\<close> suspended on the condition's queue, and \<open>reacquire_cont\<close> that of
  \<^verbatim>\<open>Condition.wait\<close> suspended on the lock's queue in its \<^verbatim>\<open>finally\<close> block. They are
  proved equal to what the definitions of the coroutines give.
\<close>

definition lock_taken :: "condition kstate \<Rightarrow> condition kstate" where
  "lock_taken s = s\<lparr>obj := (obj s)\<lparr>cond_lock := (cond_lock (obj s))\<lparr>lock_acquired := True\<rparr>\<rparr>\<rparr>"

definition lock_queue :: "(kqueue \<Rightarrow> kqueue) \<Rightarrow> condition kstate \<Rightarrow> condition kstate" where
  "lock_queue f s =
     s\<lparr>obj := (obj s)\<lparr>cond_lock := (cond_lock (obj s))\<lparr>lock_waiting := f (lock_waiting (cond_lock (obj s)))\<rparr>\<rparr>\<rparr>"

definition cond_queue :: "(kqueue \<Rightarrow> kqueue) \<Rightarrow> condition kstate \<Rightarrow> condition kstate" where
  "cond_queue f s = s\<lparr>obj := (obj s)\<lparr>cond_waiting := f (cond_waiting (obj s))\<rparr>\<rparr>"

fun exit_as :: "wake \<Rightarrow> 's \<Rightarrow> (pyval, 's) coro" where
  "exit_as Resumed s = Return PyNone s"
| "exit_as Cancelled s = Raise CancelledError s"
| "exit_as TimedOut s = Raise TaskTimeout s"

definition acquire_cont :: "task \<Rightarrow> condition cont" where
  "acquire_cont t w s =
     (case w of Resumed \<Rightarrow> Return PyNone (lock_taken s)
      | _ \<Rightarrow> exit_as w (lock_queue (remove1 t) s))"

definition reacquire_cont :: "task \<Rightarrow> wake \<Rightarrow> condition cont" where
  "reacquire_cont t w1 w s =
     (case w of Resumed \<Rightarrow> exit_as w1 (lock_taken s)
      | _ \<Rightarrow> exit_as w (lock_queue (remove1 t) s))"

definition wait_cont :: "task \<Rightarrow> condition cont" where
  "wait_cont t w s =
     (let s1 = (case w of Resumed \<Rightarrow> s | _ \<Rightarrow> cond_queue (remove1 t) s)
      in if lock_acquired (cond_lock (obj s1))
         then Suspend ''LOCK_ACQUIRE'' (lock_queue (\<lambda>q. q @ [t]) s1) (reacquire_cont t w)
         else exit_as w (lock_taken s1))"

text \<open>
  The invariant of a system of tasks that use a condition and its lock: the lock's
  invariant holds, and every suspended task is at one of the three suspension points,
  those suspended on the lock's queue being in that queue or already rescheduled.
\<close>

definition on_lock :: "task \<Rightarrow> condition kstate \<Rightarrow> bool" where
  "on_lock t s = (t \<in> set (ready s) \<or> t \<in> set (lock_waiting (cond_lock (obj s))))"

definition parked_ok :: "task \<Rightarrow> condition_call \<Rightarrow> condition cont \<Rightarrow> condition kstate \<Rightarrow> bool" where
  "parked_ok t c k s =
     ((c = CAcquire \<and> k = acquire_cont t \<and> on_lock t s)
      \<or> (c = CWait \<and> k = wait_cont t)
      \<or> (c = CWait \<and> (\<exists>w. k = reacquire_cont t w) \<and> on_lock t s))"

definition condition_system_invariant :: "(condition_call, condition) system \<Rightarrow> bool" where
  "condition_system_invariant sys =
     (lock_invariant (cond_lock (obj (state sys))) \<and>
      (\<forall>t c k. suspended sys t = Some (c, k) \<longrightarrow> parked_ok t c k (state sys)))"

primrec coro_state :: "('a, 's) coro \<Rightarrow> 's" where
  "coro_state (Return v s) = s"
| "coro_state (Raise e s) = s"
| "coro_state (Suspend tag s k) = s"

definition segment_ok :: "task \<Rightarrow> condition_call \<Rightarrow> condition kstate \<Rightarrow> (pyval, condition kstate) coro \<Rightarrow> bool" where
  "segment_ok t c s r =
     (lock_invariant (cond_lock (obj (coro_state r)))
      \<and> (\<forall>t'. t' \<noteq> t \<longrightarrow> on_lock t' s \<longrightarrow> on_lock t' (coro_state r))
      \<and> (\<forall>tag s' k. r = Suspend tag s' k \<longrightarrow> parked_ok t c k s'))"

primrec coro_outcome :: "(pyval, 's) coro \<Rightarrow> outcome" where
  "coro_outcome (Return v s) = Returned v"
| "coro_outcome (Raise e s) = Raised e"
| "coro_outcome (Suspend tag s k) = Parked tag"

text \<open>
  The adapter's coroutines, written out: \<open>cancel_enter\<close> is the change that the
  \<^verbatim>\<open>except\<close> branch of \<^verbatim>\<open>__aenter__\<close> makes; \<open>aenter_cont\<close> and \<open>aexit_cont\<close> are the
  continuations of \<^verbatim>\<open>__aenter__\<close> and \<^verbatim>\<open>__aexit__\<close> suspended in \<^verbatim>\<open>_future_wait\<close>.
  \<open>expected_calls\<close> is what the finished thread has called: \<^verbatim>\<open>__enter__\<close> once and,
  if that returned, \<^verbatim>\<open>__exit__\<close> once with the exit arguments.
\<close>

definition cancel_enter :: "adapter_world \<Rightarrow> adapter_world" where
  "cancel_enter s =
     s\<lparr>self := (self s)
          \<lparr>exit_future := add_done_callback (exit_future (self s)),
           finish_args := [PyNone, PyNone, PyNone],
           finish_evt := True\<rparr>\<rparr>"

definition aenter_cont :: "wake \<Rightarrow> adapter_world \<Rightarrow> (pyval, adapter_world) coro" where
  "aenter_cont w s =
     (case w of
        Resumed \<Rightarrow>
          (case fut_outcome (enter_future (self s)) of
             Some (Inr v) \<Rightarrow> Return v s
           | Some (Inl e) \<Rightarrow> if cancelled_or_timeout e then Raise e (cancel_enter s) else Raise e s
           | None \<Rightarrow> Raise (RuntimeError ''future has no result'') s)
      | Cancelled \<Rightarrow> Raise CancelledError (cancel_enter s)
      | TimedOut \<Rightarrow> Raise TaskTimeout (cancel_enter s))"

definition aexit_cont :: "wake \<Rightarrow> adapter_world \<Rightarrow> (pyval, adapter_world) coro" where
  "aexit_cont w s =
     (case w of
        Resumed \<Rightarrow> future_result (exit_future (self s)) s
      | Cancelled \<Rightarrow> Raise CancelledError s
      | TimedOut \<Rightarrow> Raise TaskTimeout s)"

definition expected_calls :: "manager_methods \<Rightarrow> adapter_world \<Rightarrow> manager_call list" where
  "expected_calls m w =
     (case m_enter m of
        Inl e \<Rightarrow> [Enter_call]
      | Inr v \<Rightarrow> [Enter_call, Exit_call (finish_args (self w))])"

text \<open>
  The invariant of a use: what the thread has called and resolved at each of its
  stages, and which signals are set at each stage of the task. A use is over on the
  cooperative side when \<^verbatim>\<open>__aenter__\<close> has raised or \<^verbatim>\<open>__aexit__\<close> has been called.
\<close>

definition thread_invariant :: "manager_methods \<Rightarrow> adapter_world \<Rightarrow> bool" where
  "thread_invariant m w =
     (case worker w of
        NotSpawned \<Rightarrow> thread_calls w = [] \<and> fut_outcome (enter_future (self w)) = None
      | AtStart \<Rightarrow> thread_calls w = [] \<and> fut_outcome (enter_future (self w)) = None
      | AtFinish \<Rightarrow>
          thread_calls w = [Enter_call] \<and> fut_outcome (enter_future (self w)) = Some (m_enter m)
          \<and> isl (m_enter m) = False
      | Finished \<Rightarrow>
          thread_calls w = expected_calls m w \<and> fut_outcome (enter_future (self w)) = Some (m_enter m)
          \<and> (isl (m_enter m) \<or> finish_evt (self w)))"

definition use_invariant :: "adapter_system \<Rightarrow> bool" where
  "use_invariant sys =
     (let w = world sys; a = self w in
      case use sys of
        Fresh \<Rightarrow> worker w = NotSpawned \<and> \<not> finish_evt a
      | Entering k \<Rightarrow> k = aenter_cont \<and> start_evt a \<and> \<not> finish_evt a \<and> worker w \<noteq> NotSpawned
      | Entered v \<Rightarrow> start_evt a \<and> \<not> finish_evt a \<and> worker w = AtFinish
      | EnterRaised e \<Rightarrow>
          start_evt a \<and> worker w \<noteq> NotSpawned \<and>
          (if cancelled_or_timeout e
           then finish_evt a \<and> finish_args a = [PyNone, PyNone, PyNone]
           else worker w = Finished)
      | Exiting k \<Rightarrow> k = aexit_cont \<and> start_evt a \<and> finish_evt a \<and> worker w \<noteq> NotSpawned
      | Exited out \<Rightarrow> start_evt a \<and> finish_evt a \<and> worker w \<noteq> NotSpawned)"

definition adapter_invariant :: "manager_methods \<Rightarrow> adapter_system \<Rightarrow> bool" where
  "adapter_invariant m sys = (thread_invariant m (world sys) \<and> use_invariant sys)"

fun use_over :: "use_status \<Rightarrow> bool" where
  "use_over Fresh = False"
| "use_over (Entering k) = False"
| "use_over (Entered v) = False"
| "use_over (EnterRaised e) = True"
| "use_over (Exiting k) = True"
| "use_over (Exited out) = True"

section \<open>Invariants of the kernel's runs\<close>

lemma coro_keeps_bind:
  "coro_keeps P c \<Longrightarrow> (\<And>v s. P s \<Longrightarrow> coro_keeps P (f v s)) \<Longrightarrow> coro_keeps P (bind c f)"
proof (induction c)
  case (Suspend tag s k)
  have "coro_keeps P (bind (k w s') f)" if "P s'" for w s'
    using Suspend.IH [of "k w" "k w s'"] Suspend.prems that by simp
  with Suspend.prems show ?case by simp
qed simp_all

lemma settle_keeps:
  assumes "sys_keeps P sys" and "coro_keeps P c" and "settle t cl c sys = (sys', ob)"
  shows "sys_keeps P sys'"
  using assms by (cases c) (auto simp: sys_keeps_def split: if_splits)

lemma kernel_step_keeps:
  assumes run: "\<And>c t s. P s \<Longrightarrow> coro_keeps P (run c t s)"
    and rdy: "\<And>s r. P s \<Longrightarrow> P (s\<lparr>ready := r\<rparr>)"
    and inv: "sys_keeps P sys"
    and step: "kernel_step run e sys = Some (sys', ob)"
  shows "sys_keeps P sys'"
proof (cases e)
  case (Call t c)
  with step have "suspended sys t = None" and st: "settle t c (run c t (state sys)) sys = (sys', ob)"
    by (auto split: option.splits)
  from inv have "P (state sys)" by (simp add: sys_keeps_def)
  then have "coro_keeps P (run c t (state sys))" by (rule run)
  with inv st show ?thesis by (blast intro: settle_keeps)
next
  case (Resume t)
  with step obtain c k where sus: "suspended sys t = Some (c, k)"
    and st: "settle t c (k Resumed ((state sys)\<lparr>ready := remove1 t (ready (state sys))\<rparr>)) sys = (sys', ob)"
    by (auto split: option.splits if_splits)
  from inv have "P (state sys)" by (simp add: sys_keeps_def)
  then have "P ((state sys)\<lparr>ready := remove1 t (ready (state sys))\<rparr>)" by (rule rdy)
  with inv sus have "coro_keeps P (k Resumed ((state sys)\<lparr>ready := remove1 t (ready (state sys))\<rparr>))"
    unfolding sys_keeps_def by blast
  with inv st show ?thesis by (blast intro: settle_keeps)
next
  case (Cancel t)
  with step obtain c k where sus: "suspended sys t = Some (c, k)"
    and st: "settle t c (k Cancelled (state sys)) sys = (sys', ob)"
    by (auto simp: deliver_def split: option.splits if_splits)
  from inv sus have "coro_keeps P (k Cancelled (state sys))"
    unfolding sys_keeps_def by blast
  with inv st show ?thesis by (blast intro: settle_keeps)
next
  case (Timeout t)
  with step obtain c k where sus: "suspended sys t = Some (c, k)"
    and st: "settle t c (k TimedOut (state sys)) sys = (sys', ob)"
    by (auto simp: deliver_def split: option.splits if_splits)
  from inv sus have "coro_keeps P (k TimedOut (state sys))"
    unfolding sys_keeps_def by blast
  with inv st show ?thesis by (blast intro: settle_keeps)
qed

lemma kernel_run_keeps:
  assumes run: "\<And>c t s. P s \<Longrightarrow> coro_keeps P (run c t s)"
    and rdy: "\<And>s r. P s \<Longrightarrow> P (s\<lparr>ready := r\<rparr>)"
  shows "sys_keeps P sys \<Longrightarrow> kernel_run run es sys = Some (sys', obs) \<Longrightarrow> sys_keeps P sys'"
proof (induction es arbitrary: sys obs)
  case Nil
  then show ?case by simp
next
  case (Cons e es)
  from Cons.prems(2) obtain sys1 ob obs1 where
    step: "kernel_step run e sys = Some (sys1, ob)" and
    rest: "kernel_run run es sys1 = Some (sys', obs1)"
    by (auto split: option.splits)
  from run rdy Cons.prems(1) step have "sys_keeps P sys1" by (rule kernel_step_keeps)
  then show ?case using rest by (rule Cons.IH)
qed

lemma boot_keeps: "P \<lparr>obj = p, ready = []\<rparr> \<Longrightarrow> sys_keeps P (boot p)"
  by (simp add: sys_keeps_def boot_def)

section \<open>Properties of Lock\<close>

text \<open>
  C1. \<^verbatim>\<open>Lock.release\<close> fails with the assertion error, leaving the state as it is, when
  the lock is not held. When the lock is held and tasks are waiting, it moves exactly
  one task, the first of the queue, to the ready queue and the lock stays held. When the
  lock is held and nobody waits, the lock becomes free.
\<close>

theorem Lock_release_cases:
  "Lock_release s =
     (if \<not> lock_acquired (obj s) then Raise (AssertionError ''Lock not acquired'') s
      else if lock_waiting (obj s) \<noteq> []
      then Return PyNone
             \<lparr>obj = \<lparr>lock_acquired = True, lock_waiting = tl (lock_waiting (obj s))\<rparr>,
              ready = ready s @ [hd (lock_waiting (obj s))]\<rparr>
      else Return PyNone \<lparr>obj = \<lparr>lock_acquired = False, lock_waiting = []\<rparr>, ready = ready s\<rparr>)"
  by (cases s, cases "obj s", cases "lock_waiting (obj s)")
     (auto simp: Lock_release_def reschedule_tasks_def)

lemma Lock_acquire_keeps:
  "lock_invariant (obj s) \<Longrightarrow> coro_keeps (\<lambda>s. lock_invariant (obj s)) (Lock_acquire t s)"
  by (auto simp: Lock_acquire_def wait_on_queue_def lock_invariant_def split: wake.splits)

lemma Lock_release_keeps:
  "lock_invariant (obj s) \<Longrightarrow> coro_keeps (\<lambda>s. lock_invariant (obj s)) (Lock_release s)"
  by (auto simp: Lock_release_def reschedule_tasks_def lock_invariant_def)

lemma Lock_run_keeps:
  "lock_invariant (obj s) \<Longrightarrow> coro_keeps (\<lambda>s. lock_invariant (obj s)) (Lock_run c t s)"
  by (cases c) (simp_all add: Lock_acquire_keeps Lock_release_keeps)

text \<open>
  C2. From a fresh lock, after every sequence of events (calls of \<^verbatim>\<open>acquire\<close> and
  \<^verbatim>\<open>release\<close> by any tasks, resumptions of the tasks handed the lock, and
  cancellations and timeouts that take a suspended waiter off the queue), the lock is
  held or nobody waits for it.
\<close>

theorem Lock_invariant_preserved:
  assumes "kernel_run Lock_run es (boot Lock_init) = Some (sys, obs)"
  shows "lock_invariant (obj (state sys))"
proof -
  have "sys_keeps (\<lambda>s. lock_invariant (obj s)) (boot Lock_init :: (lock_call, lock) system)"
    by (rule boot_keeps) (simp add: lock_invariant_def Lock_init_def)
  then have "sys_keeps (\<lambda>s. lock_invariant (obj s)) sys"
    using assms by (rule kernel_run_keeps [rotated 2]) (simp_all add: Lock_run_keeps)
  then show ?thesis by (simp add: sys_keeps_def)
qed

text \<open>
  A schedule with three tasks: the second waiter is cancelled while suspended, the
  third is handed the lock.
\<close>

theorem Lock_invariant_preserved_witness:
  "\<exists>sys obs.
     kernel_run Lock_run
       [Call 1 Acquire, Call 2 Acquire, Call 3 Acquire, Cancel 2, Call 1 Release, Resume 3, Call 3 Release]
       (boot Lock_init) = Some (sys, obs)
     \<and> map (snd \<circ> snd) obs =
         [Returned (PyBool True), Parked ''LOCK_ACQUIRE'', Parked ''LOCK_ACQUIRE'',
          Raised CancelledError, Returned PyNone, Returned (PyBool True), Returned PyNone]
     \<and> lock_invariant (obj (state sys))"
proof -
  have "\<exists>sys obs.
     kernel_run Lock_run
       [Call 1 Acquire, Call 2 Acquire, Call 3 Acquire, Cancel 2, Call 1 Release, Resume 3, Call 3 Release]
       (boot Lock_init) = Some (sys, obs)
     \<and> map (snd \<circ> snd) obs =
         [Returned (PyBool True), Parked ''LOCK_ACQUIRE'', Parked ''LOCK_ACQUIRE'',
          Raised CancelledError, Returned PyNone, Returned (PyBool True), Returned PyNone]"
    by (simp add: boot_def Lock_init_def Lock_acquire_def Lock_release_def wait_on_queue_def
        reschedule_tasks_def deliver_def)
  then obtain sys obs where
    r: "kernel_run Lock_run
       [Call 1 Acquire, Call 2 Acquire, Call 3 Acquire, Cancel 2, Call 1 Release, Resume 3, Call 3 Release]
       (boot Lock_init) = Some (sys, obs)"
    and o: "map (snd \<circ> snd) obs =
         [Returned (PyBool True), Parked ''LOCK_ACQUIRE'', Parked ''LOCK_ACQUIRE'',
          Raised CancelledError, Returned PyNone, Returned (PyBool True), Returned PyNone]"
    by auto
  from Lock_invariant_preserved [OF r] have "lock_invariant (obj (state sys))" .
  with r o show ?thesis by (intro exI conjI)
qed

section \<open>Properties of Semaphore and BoundedSemaphore\<close>

lemma Semaphore_uncontended_step:
  assumes "suspended sys = (\<lambda>_. None)" and "sem_waiting (obj (state sys)) = []"
    and "kernel_step Semaphore_run e sys = Some (sys', ob)" and "\<not> suspends ob"
  shows "suspended sys' = (\<lambda>_. None) \<and> sem_waiting (obj (state sys')) = []
    \<and> sem_value (obj (state sys')) + (if is_call Acquire e then 1 else 0) =
       sem_value (obj (state sys)) + (if is_call Release e then 1 else 0)"
proof (cases e)
  case (Call t c)
  show ?thesis
  proof (cases c)
    case Acquire
    with Call assms show ?thesis
      by (auto simp: Semaphore_acquire_def wait_on_queue_def split: if_splits)
  next
    case Release
    with Call assms show ?thesis
      by (auto simp: Semaphore_release_def)
  qed
qed (use assms in \<open>auto simp: deliver_def\<close>)

lemma Semaphore_uncontended_run:
  "suspended sys = (\<lambda>_. None) \<Longrightarrow> sem_waiting (obj (state sys)) = [] \<Longrightarrow>
   kernel_run Semaphore_run es sys = Some (sys', obs) \<Longrightarrow> \<forall>ob \<in> set obs. \<not> suspends ob \<Longrightarrow>
   sem_value (obj (state sys')) + int (length (filter (is_call Acquire) es)) =
     sem_value (obj (state sys)) + int (length (filter (is_call Release) es))"
proof (induction es arbitrary: sys obs)
  case Nil
  then show ?case by simp
next
  case (Cons e es)
  from Cons.prems(3) obtain sys1 ob obs1 where
    step: "kernel_step Semaphore_run e sys = Some (sys1, ob)" and
    rest: "kernel_run Semaphore_run es sys1 = Some (sys', obs1)" and
    obs: "obs = ob # obs1"
    by (auto split: option.splits)
  from Cons.prems(4) obs have quiet: "\<not> suspends ob" "\<forall>ob \<in> set obs1. \<not> suspends ob"
    by simp_all
  from Cons.prems(1,2) step quiet(1) have
    one: "suspended sys1 = (\<lambda>_. None)" "sem_waiting (obj (state sys1)) = []"
      "sem_value (obj (state sys1)) + (if is_call Acquire e then 1 else 0) =
       sem_value (obj (state sys)) + (if is_call Release e then 1 else 0)"
    using Semaphore_uncontended_step by blast+
  from Cons.IH [OF one(1,2) rest quiet(2)] one(3) show ?case
    by (simp split: if_splits)
qed

text \<open>
  C8. From a semaphore made with \<open>k\<close> permits, after every sequence of events in which
  no step ends with a task suspended and which has as many calls of \<^verbatim>\<open>acquire\<close> as of
  \<^verbatim>\<open>release\<close>, the semaphore has \<open>k\<close> permits again. That no \<^verbatim>\<open>release\<close> finds a
  waiter follows, since no task is ever suspended.
\<close>

theorem Semaphore_uncontended_balance:
  assumes "kernel_run Semaphore_run es (boot (Semaphore_init k)) = Some (sys, obs)"
    and "\<forall>ob \<in> set obs. \<not> suspends ob"
    and "length (filter (is_call Acquire) es) = length (filter (is_call Release) es)"
  shows "sem_value (obj (state sys)) = k"
  using Semaphore_uncontended_run [OF _ _ assms(1,2)] assms(3)
  by (simp add: boot_def Semaphore_init_def)

theorem Semaphore_uncontended_balance_witness:
  "\<exists>sys obs.
     kernel_run Semaphore_run
       [Call 1 Acquire, Call 2 Acquire, Call 1 Release, Call 3 Release, Call 3 Acquire, Call 2 Release]
       (boot (Semaphore_init 2)) = Some (sys, obs)
     \<and> map (snd \<circ> snd) obs =
         [Returned (PyBool True), Returned (PyBool True), Returned PyNone, Returned PyNone,
          Returned (PyBool True), Returned PyNone]
     \<and> sem_value (obj (state sys)) = 2"
proof -
  let ?es = "[Call 1 Acquire, Call 2 Acquire, Call 1 Release, Call 3 Release, Call 3 Acquire,
              Call 2 Release]"
  let ?out = "[Returned (PyBool True), Returned (PyBool True), Returned PyNone, Returned PyNone,
               Returned (PyBool True), Returned PyNone]"
  have "\<exists>sys obs. kernel_run Semaphore_run ?es (boot (Semaphore_init 2)) = Some (sys, obs)
          \<and> map (snd \<circ> snd) obs = ?out \<and> (\<forall>ob \<in> set obs. \<not> suspends ob)"
    by (simp add: boot_def Semaphore_init_def Semaphore_acquire_def Semaphore_release_def)
  then obtain sys obs where
    r: "kernel_run Semaphore_run ?es (boot (Semaphore_init 2)) = Some (sys, obs)"
    and o: "map (snd \<circ> snd) obs = ?out" and q: "\<forall>ob \<in> set obs. \<not> suspends ob"
    by auto
  have "sem_value (obj (state sys)) = 2"
    by (rule Semaphore_uncontended_balance [OF r q]) simp
  with r o show ?thesis by (intro exI conjI)
qed

lemma Semaphore_acquire_keeps_bound:
  "sem_value (obj s) \<le> bound_value (obj s) \<Longrightarrow>
   coro_keeps (\<lambda>s. sem_value (obj s) \<le> bound_value (obj s)) (Semaphore_acquire t s)"
  by (auto simp: Semaphore_acquire_def wait_on_queue_def split: wake.splits)

lemma BoundedSemaphore_release_keeps_bound:
  "sem_value (obj s) \<le> bound_value (obj s) \<Longrightarrow>
   coro_keeps (\<lambda>s. sem_value (obj s) \<le> bound_value (obj s)) (BoundedSemaphore_release s)"
  by (auto simp: BoundedSemaphore_release_def Semaphore_release_def reschedule_tasks_def)

lemma BoundedSemaphore_run_keeps_bound:
  "sem_value (obj s) \<le> bound_value (obj s) \<Longrightarrow>
   coro_keeps (\<lambda>s. sem_value (obj s) \<le> bound_value (obj s)) (BoundedSemaphore_run c t s)"
  by (cases c) (simp_all add: Semaphore_acquire_keeps_bound BoundedSemaphore_release_keeps_bound)

text \<open>
  C4. \<^verbatim>\<open>BoundedSemaphore.release\<close> raises the \<^verbatim>\<open>ValueError\<close> when the permits equal
  the bound, before anything of \<^verbatim>\<open>Semaphore.release\<close> runs: the state, wait queue
  included, is left as it is. And from a fresh bounded semaphore, after every sequence
  of events, the permits do not exceed the bound.
\<close>

theorem BoundedSemaphore_release_bound:
  "(sem_value (obj s) = bound_value (obj s) \<longrightarrow>
      BoundedSemaphore_release s =
        Raise (ValueError ''BoundedSemaphore released too many times'') s)
   \<and> (kernel_run BoundedSemaphore_run es (boot (BoundedSemaphore_init v)) = Some (sys, obs) \<longrightarrow>
        sem_value (obj (state sys)) \<le> bound_value (obj (state sys)))"
proof (intro conjI impI)
  assume "sem_value (obj s) = bound_value (obj s)"
  then show "BoundedSemaphore_release s =
        Raise (ValueError ''BoundedSemaphore released too many times'') s"
    by (simp add: BoundedSemaphore_release_def)
next
  let ?P = "\<lambda>s :: bounded_semaphore kstate. sem_value (obj s) \<le> bound_value (obj s)"
  assume r: "kernel_run BoundedSemaphore_run es (boot (BoundedSemaphore_init v)) = Some (sys, obs)"
  have "sys_keeps ?P (boot (BoundedSemaphore_init v) :: (lock_call, bounded_semaphore) system)"
    by (rule boot_keeps) (simp add: BoundedSemaphore_init_def)
  then have "sys_keeps ?P sys"
    using r by (rule kernel_run_keeps [rotated 2]) (simp_all add: BoundedSemaphore_run_keeps_bound)
  then show "sem_value (obj (state sys)) \<le> bound_value (obj (state sys))"
    by (simp add: sys_keeps_def)
qed

theorem BoundedSemaphore_release_bound_witness:
  "BoundedSemaphore_release
       \<lparr>obj = \<lparr>sem_value = 2, sem_waiting = [], bound_value = 2\<rparr>, ready = []\<rparr> =
     Raise (ValueError ''BoundedSemaphore released too many times'')
       \<lparr>obj = \<lparr>sem_value = 2, sem_waiting = [], bound_value = 2\<rparr>, ready = []\<rparr>
   \<and> (\<exists>sys obs.
        kernel_run BoundedSemaphore_run [Call 1 Acquire, Call 2 Release, Call 3 Release]
          (boot (BoundedSemaphore_init 1)) = Some (sys, obs)
        \<and> map (snd \<circ> snd) obs =
            [Returned (PyBool True), Returned PyNone,
             Raised (ValueError ''BoundedSemaphore released too many times'')]
        \<and> sem_value (obj (state sys)) \<le> bound_value (obj (state sys)))"
proof -
  let ?s = "\<lparr>obj = \<lparr>sem_value = 2, sem_waiting = [], bound_value = 2\<rparr>, ready = []\<rparr>"
  let ?es = "[Call 1 Acquire, Call 2 Release, Call 3 Release]"
  let ?out = "[Returned (PyBool True), Returned PyNone,
               Raised (ValueError ''BoundedSemaphore released too many times'')]"
  have "\<exists>sys obs. kernel_run BoundedSemaphore_run ?es (boot (BoundedSemaphore_init 1)) = Some (sys, obs)
          \<and> map (snd \<circ> snd) obs = ?out"
    by (simp add: boot_def BoundedSemaphore_init_def Semaphore_acquire_def Semaphore_release_def
        BoundedSemaphore_release_def)
  then obtain sys obs where
    r: "kernel_run BoundedSemaphore_run ?es (boot (BoundedSemaphore_init 1)) = Some (sys, obs)"
    and o: "map (snd \<circ> snd) obs = ?out"
    by auto
  from BoundedSemaphore_release_bound [of ?s ?es 1 sys obs] r
  have a: "BoundedSemaphore_release ?s =
      Raise (ValueError ''BoundedSemaphore released too many times'') ?s"
    and b: "sem_value (obj (state sys)) \<le> bound_value (obj (state sys))"
    by simp_all
  from r o b have "\<exists>sys obs.
        kernel_run BoundedSemaphore_run ?es (boot (BoundedSemaphore_init 1)) = Some (sys, obs)
        \<and> map (snd \<circ> snd) obs = ?out
        \<and> sem_value (obj (state sys)) \<le> bound_value (obj (state sys))"
    by (intro exI conjI)
  with a show ?thesis by (intro conjI)
qed

text \<open>
  C5 as stated fails for a bounded semaphore made with no permit: a task that calls
  \<^verbatim>\<open>acquire\<close> is suspended, and a \<^verbatim>\<open>release\<close> then raises the \<^verbatim>\<open>ValueError\<close> while
  that task waits, since the permits (0) have reached the bound (0).
\<close>

theorem BoundedSemaphore_contended_counterexample:
  "map_option (apfst state)
     (kernel_run BoundedSemaphore_run [Call 1 Acquire, Call 2 Release]
        (boot (BoundedSemaphore_init 0))) =
   Some (\<lparr>obj = \<lparr>sem_value = 0, sem_waiting = [1], bound_value = 0\<rparr>, ready = []\<rparr>,
         [(1, Acquire, Parked ''SEMA_ACQUIRE''),
          (2, Release, Raised (ValueError ''BoundedSemaphore released too many times''))])"
  by (simp add: boot_def BoundedSemaphore_init_def Semaphore_acquire_def
      BoundedSemaphore_release_def wait_on_queue_def)

lemma Semaphore_acquire_keeps_contended:
  "semaphore_invariant (obj s) \<and> b \<le> bound_value (obj s) \<Longrightarrow>
   coro_keeps (\<lambda>s. semaphore_invariant (obj s) \<and> b \<le> bound_value (obj s)) (Semaphore_acquire t s)"
  by (auto simp: Semaphore_acquire_def wait_on_queue_def semaphore_invariant_def
      split: wake.splits)

lemma BoundedSemaphore_release_keeps_contended:
  "semaphore_invariant (obj s) \<and> b \<le> bound_value (obj s) \<Longrightarrow>
   coro_keeps (\<lambda>s. semaphore_invariant (obj s) \<and> b \<le> bound_value (obj s))
     (BoundedSemaphore_release s)"
  by (auto simp: BoundedSemaphore_release_def Semaphore_release_def reschedule_tasks_def
      semaphore_invariant_def)

lemma BoundedSemaphore_run_keeps_contended:
  "semaphore_invariant (obj s) \<and> b \<le> bound_value (obj s) \<Longrightarrow>
   coro_keeps (\<lambda>s. semaphore_invariant (obj s) \<and> b \<le> bound_value (obj s))
     (BoundedSemaphore_run c t s)"
  by (cases c)
    (simp_all add: Semaphore_acquire_keeps_contended BoundedSemaphore_release_keeps_contended)

text \<open>
  C5, amended: for a bounded semaphore whose bound is at least 1. With tasks waiting and
  no permit left, \<^verbatim>\<open>release\<close> moves the first waiter to the ready queue and neither
  changes the permits nor raises. And from a fresh bounded semaphore with at least one
  permit, after every sequence of events, \<^verbatim>\<open>release\<close> raises only when nobody waits.
\<close>

theorem BoundedSemaphore_contended_handoff:
  "(1 \<le> bound_value (obj s) \<and> sem_waiting (obj s) \<noteq> [] \<and> sem_value (obj s) = 0 \<longrightarrow>
      BoundedSemaphore_release s =
        Return PyNone \<lparr>obj = (obj s)\<lparr>sem_waiting := tl (sem_waiting (obj s))\<rparr>,
                       ready = ready s @ [hd (sem_waiting (obj s))]\<rparr>)
   \<and> (1 \<le> b \<and>
       kernel_run BoundedSemaphore_run es (boot (BoundedSemaphore_init b)) = Some (sys, obs) \<and>
       BoundedSemaphore_release (state sys) = Raise e s' \<longrightarrow>
      sem_waiting (obj (state sys)) = [])"
proof (intro conjI impI)
  assume "1 \<le> bound_value (obj s) \<and> sem_waiting (obj s) \<noteq> [] \<and> sem_value (obj s) = 0"
  then show "BoundedSemaphore_release s =
        Return PyNone \<lparr>obj = (obj s)\<lparr>sem_waiting := tl (sem_waiting (obj s))\<rparr>,
                       ready = ready s @ [hd (sem_waiting (obj s))]\<rparr>"
    by (cases "sem_waiting (obj s)")
      (simp_all add: BoundedSemaphore_release_def Semaphore_release_def reschedule_tasks_def)
next
  let ?P = "\<lambda>s :: bounded_semaphore kstate. semaphore_invariant (obj s) \<and> 1 \<le> bound_value (obj s)"
  assume a: "1 \<le> b \<and>
       kernel_run BoundedSemaphore_run es (boot (BoundedSemaphore_init b)) = Some (sys, obs) \<and>
       BoundedSemaphore_release (state sys) = Raise e s'"
  then have r: "kernel_run BoundedSemaphore_run es (boot (BoundedSemaphore_init b)) = Some (sys, obs)"
    by simp
  from a have "sys_keeps ?P (boot (BoundedSemaphore_init b) :: (lock_call, bounded_semaphore) system)"
    by (intro boot_keeps) (simp add: BoundedSemaphore_init_def semaphore_invariant_def)
  then have "sys_keeps ?P sys"
    using r by (rule kernel_run_keeps [rotated 2]) (simp_all add: BoundedSemaphore_run_keeps_contended)
  then have "semaphore_invariant (obj (state sys))" "1 \<le> bound_value (obj (state sys))"
    by (simp_all add: sys_keeps_def)
  moreover from a have "bound_value (obj (state sys)) \<le> sem_value (obj (state sys))"
    by (auto simp: BoundedSemaphore_release_def Semaphore_release_def split: if_splits)
  ultimately show "sem_waiting (obj (state sys)) = []"
    by (auto simp: semaphore_invariant_def)
qed

theorem BoundedSemaphore_contended_handoff_witness:
  "BoundedSemaphore_release
       \<lparr>obj = \<lparr>sem_value = 0, sem_waiting = [4, 5], bound_value = 2\<rparr>, ready = []\<rparr> =
     Return PyNone \<lparr>obj = \<lparr>sem_value = 0, sem_waiting = [5], bound_value = 2\<rparr>, ready = [4]\<rparr>
   \<and> (\<exists>sys obs.
        kernel_run BoundedSemaphore_run
          [Call 1 Acquire, Call 2 Acquire, Call 1 Release, Resume 2, Call 2 Release]
          (boot (BoundedSemaphore_init 1)) = Some (sys, obs)
        \<and> BoundedSemaphore_release (state sys) =
            Raise (ValueError ''BoundedSemaphore released too many times'') (state sys)
        \<and> sem_waiting (obj (state sys)) = [])"
proof -
  let ?s = "\<lparr>obj = \<lparr>sem_value = 0, sem_waiting = [4, 5], bound_value = 2\<rparr>, ready = []\<rparr>"
  let ?es = "[Call 1 Acquire, Call 2 Acquire, Call 1 Release, Resume 2, Call 2 Release]"
  let ?e = "ValueError ''BoundedSemaphore released too many times''"
  have "\<exists>sys obs. kernel_run BoundedSemaphore_run ?es (boot (BoundedSemaphore_init 1)) = Some (sys, obs)
          \<and> BoundedSemaphore_release (state sys) = Raise ?e (state sys)"
    by (simp add: boot_def BoundedSemaphore_init_def Semaphore_acquire_def Semaphore_release_def
        BoundedSemaphore_release_def wait_on_queue_def reschedule_tasks_def)
  then obtain sys obs where
    r: "kernel_run BoundedSemaphore_run ?es (boot (BoundedSemaphore_init 1)) = Some (sys, obs)"
    and x: "BoundedSemaphore_release (state sys) = Raise ?e (state sys)"
    by auto
  from BoundedSemaphore_contended_handoff [of ?s 1 ?es sys obs ?e "state sys"] r x
  have a: "BoundedSemaphore_release ?s =
      Return PyNone \<lparr>obj = \<lparr>sem_value = 0, sem_waiting = [5], bound_value = 2\<rparr>, ready = [4]\<rparr>"
    and b: "sem_waiting (obj (state sys)) = []"
    by simp_all
  from r x b have "\<exists>sys obs.
        kernel_run BoundedSemaphore_run ?es (boot (BoundedSemaphore_init 1)) = Some (sys, obs)
        \<and> BoundedSemaphore_release (state sys) = Raise ?e (state sys)
        \<and> sem_waiting (obj (state sys)) = []"
    by (intro exI conjI)
  with a show ?thesis by (intro conjI)
qed

section \<open>Properties of Event\<close>

text \<open>
  C6. \<^verbatim>\<open>Event.set\<close> sets the flag and moves every task of the wait queue, as many as
  were queued at the call and in their order, to the ready queue, leaving the wait queue
  empty. A task that calls \<^verbatim>\<open>wait\<close> while the flag is set returns at once: it is not
  suspended and the state does not change.
\<close>

theorem Event_set_broadcast:
  "Event_set s =
     Return PyNone \<lparr>obj = \<lparr>event_set = True, event_waiting = []\<rparr>,
                    ready = ready s @ event_waiting (obj s)\<rparr>
   \<and> (event_set (obj s) \<longrightarrow> Event_wait t s = Return PyNone s)"
  by (cases s, cases "obj s") (simp add: Event_set_def Event_wait_def reschedule_tasks_def)

theorem Event_set_broadcast_witness:
  "Event_set \<lparr>obj = \<lparr>event_set = False, event_waiting = [3, 5]\<rparr>, ready = [1]\<rparr> =
     Return PyNone \<lparr>obj = \<lparr>event_set = True, event_waiting = []\<rparr>, ready = [1, 3, 5]\<rparr>
   \<and> Event_wait 7 \<lparr>obj = \<lparr>event_set = True, event_waiting = []\<rparr>, ready = [1, 3, 5]\<rparr> =
     Return PyNone \<lparr>obj = \<lparr>event_set = True, event_waiting = []\<rparr>, ready = [1, 3, 5]\<rparr>"
  using Event_set_broadcast [of "\<lparr>obj = \<lparr>event_set = False, event_waiting = [3, 5]\<rparr>, ready = [1]\<rparr>"]
        Event_set_broadcast [of "\<lparr>obj = \<lparr>event_set = True, event_waiting = []\<rparr>, ready = [1, 3, 5]\<rparr>" 7]
  by simp

section \<open>Properties of the adapter\<close>

lemma aenter_eq:
  "aenter s =
     Suspend ''FUTURE_WAIT'' (s\<lparr>worker := AtStart, self := (self s)\<lparr>start_evt := True\<rparr>\<rparr>) aenter_cont"
  by (auto simp: aenter_def future_wait_def aenter_cont_def cancel_enter_def future_result_def
      cancelled_or_timeout_def Let_def fun_eq_iff split: wake.splits option.splits sum.splits)

lemma aexit_eq:
  "aexit args s =
     Suspend ''FUTURE_WAIT'' (s\<lparr>self := (self s)\<lparr>finish_args := args, finish_evt := True\<rparr>\<rparr>) aexit_cont"
  by (auto simp: aexit_def future_wait_def aexit_cont_def Let_def fun_eq_iff split: wake.splits)

lemma adapter_boot_invariant: "adapter_invariant m (adapter_boot mgr)"
  by (simp add: adapter_invariant_def thread_invariant_def use_invariant_def adapter_boot_def
      contextadapt_init_def Future_init_def)

lemma adapter_enter_invariant:
  assumes "adapter_invariant m sys" and "adapter_step m DoEnter sys = Some sys'"
  shows "adapter_invariant m sys'"
  using assms
  by (auto simp: adapter_invariant_def thread_invariant_def use_invariant_def aenter_eq Let_def
      split: use_status.splits)

lemma adapter_exit_invariant:
  assumes "adapter_invariant m sys" and "adapter_step m (DoExit args) sys = Some sys'"
  shows "adapter_invariant m sys'"
  using assms
  by (auto simp: adapter_invariant_def thread_invariant_def use_invariant_def aexit_eq Let_def
      split: use_status.splits)

lemma handler_step_cases:
  assumes "handler_step m w = Some w'"
  shows "(worker w = AtStart \<and> start_evt (self w) \<and>
          (case m_enter m of
             Inr v \<Rightarrow> w' = w\<lparr>thread_calls := thread_calls w @ [Enter_call],
                              self := (self w)\<lparr>enter_future := set_result v (enter_future (self w))\<rparr>,
                              worker := AtFinish\<rparr>
           | Inl e \<Rightarrow> w' = w\<lparr>thread_calls := thread_calls w @ [Enter_call],
                              self := (self w)\<lparr>enter_future := set_exception e (enter_future (self w))\<rparr>,
                              worker := Finished\<rparr>))
       \<or> (worker w = AtFinish \<and> finish_evt (self w) \<and>
          (case m_exit m (finish_args (self w)) of
             Inr v \<Rightarrow> w' = w\<lparr>thread_calls := thread_calls w @ [Exit_call (finish_args (self w))],
                              self := (self w)\<lparr>exit_future := set_result v (exit_future (self w))\<rparr>,
                              worker := Finished\<rparr>
           | Inl e \<Rightarrow> w' = w\<lparr>thread_calls := thread_calls w @ [Exit_call (finish_args (self w))],
                              self := (self w)\<lparr>exit_future := set_exception e (exit_future (self w))\<rparr>,
                              worker := Finished\<rparr>))"
  using assms
  by (cases "worker w")
    (auto simp: handler_step_def Let_def split: if_splits sum.splits)


lemma handler_step_effect:
  assumes inv: "thread_invariant m w" and step: "handler_step m w = Some w'"
  shows "thread_invariant m w' \<and> start_evt (self w') = start_evt (self w)
    \<and> finish_evt (self w') = finish_evt (self w) \<and> finish_args (self w') = finish_args (self w)
    \<and> worker w' \<noteq> NotSpawned \<and> worker w' \<noteq> AtStart
    \<and> (worker w = AtStart \<and> start_evt (self w) \<or> worker w = AtFinish \<and> finish_evt (self w))"
proof -
  from handler_step_cases [OF step] show ?thesis
  proof (elim disjE conjE)
    assume a: "worker w = AtStart" "start_evt (self w)"
      and c: "case m_enter m of
             Inr v \<Rightarrow> w' = w\<lparr>thread_calls := thread_calls w @ [Enter_call],
                              self := (self w)\<lparr>enter_future := set_result v (enter_future (self w))\<rparr>,
                              worker := AtFinish\<rparr>
           | Inl e \<Rightarrow> w' = w\<lparr>thread_calls := thread_calls w @ [Enter_call],
                              self := (self w)\<lparr>enter_future := set_exception e (enter_future (self w))\<rparr>,
                              worker := Finished\<rparr>"
    show ?thesis
    proof (cases "m_enter m")
      case (Inl e)
      with a c inv show ?thesis
        by (simp add: thread_invariant_def expected_calls_def set_exception_def)
    next
      case (Inr v)
      with a c inv show ?thesis
        by (simp add: thread_invariant_def expected_calls_def set_result_def)
    qed
  next
    assume a: "worker w = AtFinish" "finish_evt (self w)"
      and c: "case m_exit m (finish_args (self w)) of
             Inr v \<Rightarrow> w' = w\<lparr>thread_calls := thread_calls w @ [Exit_call (finish_args (self w))],
                              self := (self w)\<lparr>exit_future := set_result v (exit_future (self w))\<rparr>,
                              worker := Finished\<rparr>
           | Inl e \<Rightarrow> w' = w\<lparr>thread_calls := thread_calls w @ [Exit_call (finish_args (self w))],
                              self := (self w)\<lparr>exit_future := set_exception e (exit_future (self w))\<rparr>,
                              worker := Finished\<rparr>"
    from inv a have isr: "\<not> isl (m_enter m)" and calls: "thread_calls w = [Enter_call]"
      and fut: "fut_outcome (enter_future (self w)) = Some (m_enter m)"
      by (simp_all add: thread_invariant_def)
    from isr obtain v0 where v0: "m_enter m = Inr v0" by (cases "m_enter m") simp_all
    show ?thesis
    proof (cases "m_exit m (finish_args (self w))")
      case (Inl e)
      with a c calls fut v0 show ?thesis
        by (simp add: thread_invariant_def expected_calls_def set_exception_def)
    next
      case (Inr v)
      with a c calls fut v0 show ?thesis
        by (simp add: thread_invariant_def expected_calls_def set_result_def)
    qed
  qed
qed

lemma adapter_thread_invariant:
  assumes inv: "adapter_invariant m sys" and step: "adapter_step m ThreadRuns sys = Some sys'"
  shows "adapter_invariant m sys'"
proof -
  from step obtain w' where hs: "handler_step m (world sys) = Some w'"
    and sys': "sys' = sys\<lparr>world := w'\<rparr>"
    by (auto split: option.splits)
  from inv have ti: "thread_invariant m (world sys)" and ui: "use_invariant sys"
    by (simp_all add: adapter_invariant_def)
  note eff = handler_step_effect [OF ti hs]
  have "use_invariant sys'"
  proof (cases "use sys")
    case Fresh
    with ui eff show ?thesis by (auto simp: use_invariant_def Let_def)
  next
    case (Entering k)
    with ui eff sys' show ?thesis by (simp add: use_invariant_def Let_def)
  next
    case (Entered v)
    with ui eff show ?thesis by (auto simp: use_invariant_def Let_def)
  next
    case (EnterRaised e)
    with ui eff sys' show ?thesis by (auto simp: use_invariant_def Let_def)
  next
    case (Exiting k)
    with ui eff sys' show ?thesis by (simp add: use_invariant_def Let_def)
  next
    case (Exited out)
    with ui eff sys' show ?thesis by (simp add: use_invariant_def Let_def)
  qed
  with eff sys' show ?thesis by (simp add: adapter_invariant_def)
qed


lemma thread_invariant_cancel_enter:
  assumes "thread_invariant m s" and "\<not> finish_evt (self s)"
  shows "thread_invariant m (cancel_enter s)"
  using assms
  by (cases "worker s"; cases "m_enter m")
    (simp_all add: thread_invariant_def cancel_enter_def expected_calls_def add_done_callback_def)

lemma cancel_enter_fields:
  "start_evt (self (cancel_enter s)) = start_evt (self s)"
  "finish_evt (self (cancel_enter s))"
  "finish_args (self (cancel_enter s)) = [PyNone, PyNone, PyNone]"
  "worker (cancel_enter s) = worker s"
  by (simp_all add: cancel_enter_def)

lemma adapter_entering_wake:
  assumes inv: "adapter_invariant m sys" and st: "use sys = Entering k"
    and resolved: "w = Resumed \<longrightarrow> fut_outcome (enter_future (self (world sys))) \<noteq> None"
  shows "adapter_invariant m (settle_enter (k w (world sys)))"
proof -
  let ?s = "world sys"
  from inv have ti: "thread_invariant m ?s" and ui: "use_invariant sys"
    by (simp_all add: adapter_invariant_def)
  from ui st have k: "k = aenter_cont" and se: "start_evt (self ?s)"
    and nf: "\<not> finish_evt (self ?s)" and sp: "worker ?s \<noteq> NotSpawned"
    by (simp_all add: use_invariant_def Let_def)
  have cancelled: "adapter_invariant m \<lparr>world = cancel_enter ?s, use = EnterRaised e\<rparr>"
    if "cancelled_or_timeout e" for e
    using that ti nf se sp
    by (simp add: adapter_invariant_def use_invariant_def thread_invariant_cancel_enter
        cancel_enter_fields Let_def)
  show ?thesis
  proof (cases w)
    case Cancelled
    with k cancelled [of CancelledError] show ?thesis
      by (simp add: aenter_cont_def cancelled_or_timeout_def)
  next
    case TimedOut
    with k cancelled [of TaskTimeout] show ?thesis
      by (simp add: aenter_cont_def cancelled_or_timeout_def)
  next
    case Resumed
    with resolved have res: "fut_outcome (enter_future (self ?s)) \<noteq> None" by simp
    with ti have fut: "fut_outcome (enter_future (self ?s)) = Some (m_enter m)"
      and pc: "worker ?s = AtFinish \<and> \<not> isl (m_enter m) \<or> worker ?s = Finished \<and> isl (m_enter m)"
      using nf by (cases "worker ?s"; simp add: thread_invariant_def)+
    show ?thesis
    proof (cases "m_enter m")
      case (Inr v)
      with pc have "worker ?s = AtFinish" by simp
      with Resumed k fut Inr ti se nf show ?thesis
        by (simp add: aenter_cont_def adapter_invariant_def use_invariant_def Let_def)
    next
      case (Inl e)
      with pc have fin: "worker ?s = Finished" by simp
      show ?thesis
      proof (cases "cancelled_or_timeout e")
        case True
        with Resumed k fut Inl cancelled [of e] show ?thesis
          by (simp add: aenter_cont_def)
      next
        case False
        with Resumed k fut Inl ti se fin show ?thesis
          by (simp add: aenter_cont_def adapter_invariant_def use_invariant_def Let_def)
      qed
    qed
  qed
qed

lemma adapter_exiting_wake:
  assumes inv: "adapter_invariant m sys" and st: "use sys = Exiting k"
  shows "adapter_invariant m (settle_exit (k w (world sys)))"
proof -
  let ?s = "world sys"
  from inv have ti: "thread_invariant m ?s" and ui: "use_invariant sys"
    by (simp_all add: adapter_invariant_def)
  from ui st have k: "k = aexit_cont" and flags: "start_evt (self ?s)" "finish_evt (self ?s)"
    "worker ?s \<noteq> NotSpawned"
    by (simp_all add: use_invariant_def Let_def)
  have "\<exists>out. settle_exit (k w ?s) = \<lparr>world = ?s, use = Exited out\<rparr>"
    unfolding k
    by (cases w; cases "fut_outcome (exit_future (self ?s))")
      (auto simp: aexit_cont_def future_result_def split: sum.splits)
  then obtain out where "settle_exit (k w ?s) = \<lparr>world = ?s, use = Exited out\<rparr>" ..
  with ti flags show ?thesis
    by (simp add: adapter_invariant_def use_invariant_def Let_def)
qed


lemma adapter_step_invariant:
  assumes inv: "adapter_invariant m sys" and step: "adapter_step m e sys = Some sys'"
  shows "adapter_invariant m sys'"
proof (cases e)
  case DoEnter
  with inv step show ?thesis by (simp add: adapter_enter_invariant)
next
  case (DoExit args)
  with inv step show ?thesis by (simp add: adapter_exit_invariant)
next
  case ThreadRuns
  with inv step show ?thesis by (simp add: adapter_thread_invariant)
next
  case FutureDone
  show ?thesis
  proof (cases "use sys")
    case (Entering k)
    with FutureDone step inv show ?thesis
      by (auto simp: wake_task_def adapter_entering_wake split: if_splits)
  next
    case (Exiting k)
    with FutureDone step inv show ?thesis
      by (auto simp: wake_task_def adapter_exiting_wake split: if_splits)
  qed (use FutureDone step in simp_all)
next
  case CancelTask
  show ?thesis
  proof (cases "use sys")
    case (Entering k)
    with CancelTask step inv show ?thesis
      by (auto simp: wake_task_def adapter_entering_wake)
  next
    case (Exiting k)
    with CancelTask step inv show ?thesis
      by (auto simp: wake_task_def adapter_exiting_wake)
  qed (use CancelTask step in \<open>simp_all add: wake_task_def\<close>)
next
  case TimeoutTask
  show ?thesis
  proof (cases "use sys")
    case (Entering k)
    with TimeoutTask step inv show ?thesis
      by (auto simp: wake_task_def adapter_entering_wake)
  next
    case (Exiting k)
    with TimeoutTask step inv show ?thesis
      by (auto simp: wake_task_def adapter_exiting_wake)
  qed (use TimeoutTask step in \<open>simp_all add: wake_task_def\<close>)
qed

lemma adapter_run_invariant:
  "adapter_invariant m sys \<Longrightarrow> adapter_run m es sys = Some sys' \<Longrightarrow> adapter_invariant m sys'"
proof (induction es arbitrary: sys)
  case Nil
  then show ?case by simp
next
  case (Cons e es)
  from Cons.prems(2) obtain sys1 where
    step: "adapter_step m e sys = Some sys1" and rest: "adapter_run m es sys1 = Some sys'"
    by (auto split: option.splits)
  from Cons.prems(1) step have "adapter_invariant m sys1" by (rule adapter_step_invariant)
  then show ?case using rest by (rule Cons.IH)
qed

lemma thread_calls_prefix:
  assumes "thread_invariant m w"
  shows "thread_calls w = [] \<or> thread_calls w = [Enter_call] \<or> thread_calls w = expected_calls m w"
  using assms by (cases "worker w") (simp_all add: thread_invariant_def)

lemma handler_step_enabled:
  "worker w = AtStart \<and> start_evt (self w) \<or> worker w = AtFinish \<and> finish_evt (self w) \<Longrightarrow>
   \<exists>w'. handler_step m w = Some w'"
  by (cases "m_enter m"; cases "m_exit m (finish_args (self w))")
    (auto simp: handler_step_def Let_def)

lemma handler_step_finished: "worker w = Finished \<Longrightarrow> handler_step m w = None"
  by (simp add: handler_step_def)

lemma run_thread_finished:
  "thread_invariant m w \<Longrightarrow> worker w = Finished \<Longrightarrow>
   worker (run_thread n m w) = Finished \<and> thread_calls (run_thread n m w) = expected_calls m w"
  by (cases n) (simp_all add: handler_step_finished thread_invariant_def)

lemma expected_calls_cong:
  "finish_args (self w') = finish_args (self w) \<Longrightarrow> expected_calls m w' = expected_calls m w"
  by (cases "m_enter m") (simp_all add: expected_calls_def)

lemma run_thread_at_finish:
  assumes ti: "thread_invariant m w" and pc: "worker w = AtFinish" and fe: "finish_evt (self w)"
  shows "worker (run_thread (Suc n) m w) = Finished
    \<and> thread_calls (run_thread (Suc n) m w) = expected_calls m w"
proof -
  from pc fe obtain w' where hs: "handler_step m w = Some w'"
    using handler_step_enabled [of w m] by blast
  note eff = handler_step_effect [OF ti hs]
  from handler_step_cases [OF hs] pc have fin: "worker w' = Finished"
    by (auto split: sum.splits)
  with eff have "worker (run_thread n m w') = Finished
    \<and> thread_calls (run_thread n m w') = expected_calls m w'"
    by (simp add: run_thread_finished)
  moreover from eff have "expected_calls m w' = expected_calls m w"
    by (simp add: expected_calls_cong [of w' w])
  ultimately show ?thesis using hs by simp
qed

lemma run_thread_completes:
  assumes ti: "thread_invariant m w" and sp: "worker w \<noteq> NotSpawned" and se: "start_evt (self w)"
    and fe: "finish_evt (self w) \<or> worker w = Finished"
  shows "worker (run_thread (Suc (Suc n)) m w) = Finished
    \<and> thread_calls (run_thread (Suc (Suc n)) m w) = expected_calls m w"
proof (cases "worker w")
  case NotSpawned
  with sp show ?thesis by simp
next
  case Finished
  with ti show ?thesis by (rule run_thread_finished)
next
  case AtFinish
  with fe have "finish_evt (self w)" by simp
  with ti AtFinish show ?thesis by (rule run_thread_at_finish)
next
  case AtStart
  with se obtain w' where hs: "handler_step m w = Some w'"
    using handler_step_enabled [of w m] by blast
  note eff = handler_step_effect [OF ti hs]
  from eff AtStart fe have fe': "finish_evt (self w')" by simp
  have "worker (run_thread (Suc n) m w') = Finished
    \<and> thread_calls (run_thread (Suc n) m w') = expected_calls m w'"
  proof (cases "worker w'")
    case Finished
    from eff have "thread_invariant m w'" by simp
    then show ?thesis using Finished by (rule run_thread_finished)
  next
    case AtFinish
    from eff have "thread_invariant m w'" by simp
    then show ?thesis using AtFinish fe' by (rule run_thread_at_finish)
  qed (use eff in simp_all)
  moreover from eff have "expected_calls m w' = expected_calls m w"
    by (simp add: expected_calls_cong [of w' w])
  ultimately show ?thesis using hs by simp
qed

lemma thread_completes:
  assumes inv: "adapter_invariant m sys" and over: "use_over (use sys)"
  shows "worker (run_thread 2 m (world sys)) = Finished
    \<and> thread_calls (run_thread 2 m (world sys)) = expected_calls m (world sys)"
proof -
  from inv have ti: "thread_invariant m (world sys)" and ui: "use_invariant sys"
    by (simp_all add: adapter_invariant_def)
  from ui over have "worker (world sys) \<noteq> NotSpawned" "start_evt (self (world sys))"
    "finish_evt (self (world sys)) \<or> worker (world sys) = Finished"
    by (cases "use sys"; simp add: use_invariant_def Let_def split: if_splits)+
  with ti show ?thesis
    unfolding numeral_2_eq_2 by (rule run_thread_completes)
qed

text \<open>
  C9 as stated fails when the manager's \<^verbatim>\<open>__enter__\<close> raises: \<^verbatim>\<open>_handler\<close> stores the
  exception and returns, so the thread finishes having called \<^verbatim>\<open>__enter__\<close> once and
  \<^verbatim>\<open>__exit__\<close> not at all.
\<close>

theorem adapter_enter_raises_counterexample:
  "map_option use (adapter_run raising_manager [DoEnter, ThreadRuns, FutureDone] (adapter_boot a_lock))
     = Some (EnterRaised (RuntimeError ''boom''))
   \<and> map_option (worker \<circ> world)
        (adapter_run raising_manager [DoEnter, ThreadRuns, FutureDone] (adapter_boot a_lock))
     = Some Finished
   \<and> map_option (thread_calls \<circ> world)
        (adapter_run raising_manager [DoEnter, ThreadRuns, FutureDone] (adapter_boot a_lock))
     = Some [Enter_call]"
  by (simp add: raising_manager_def adapter_boot_def contextadapt_init_def Future_init_def
      aenter_eq aenter_cont_def handler_step_def wake_task_def set_exception_def
      cancelled_or_timeout_def Let_def)

text \<open>
  C9, amended. In every run of a use of the adapter, the worker thread has at each
  moment called nothing, \<^verbatim>\<open>__enter__\<close> once, or \<^verbatim>\<open>__enter__\<close> once and then, if
  \<^verbatim>\<open>__enter__\<close> returned, \<^verbatim>\<open>__exit__\<close> once. Once the use is over on the cooperative
  side, whether the task was cancelled or timed out while waiting for entry or not, the
  thread is not left blocked: it runs to its end and has then called \<^verbatim>\<open>__enter__\<close>
  exactly once and \<^verbatim>\<open>__exit__\<close> exactly once if \<^verbatim>\<open>__enter__\<close> returned, and not at all if
  it raised. When \<^verbatim>\<open>__aenter__\<close> ends with a cancellation or a timeout, the exit signal
  is set and the exit arguments are \<^verbatim>\<open>(None, None, None)\<close>.
\<close>

theorem adapter_enter_exit_once:
  "adapter_run m es (adapter_boot mgr) = Some sys \<longrightarrow>
     (thread_calls (world sys) = [] \<or> thread_calls (world sys) = [Enter_call]
      \<or> thread_calls (world sys) = expected_calls m (world sys))
     \<and> (use_over (use sys) \<longrightarrow>
          worker (run_thread 2 m (world sys)) = Finished
          \<and> thread_calls (run_thread 2 m (world sys)) = expected_calls m (world sys))
     \<and> (\<forall>e. use sys = EnterRaised e \<and> cancelled_or_timeout e \<longrightarrow>
          finish_evt (self (world sys))
          \<and> finish_args (self (world sys)) = [PyNone, PyNone, PyNone])"
proof (intro impI conjI allI)
  assume run: "adapter_run m es (adapter_boot mgr) = Some sys"
  have "adapter_invariant m (adapter_boot mgr)" by (rule adapter_boot_invariant)
  then have inv: "adapter_invariant m sys" using run by (rule adapter_run_invariant)
  then show "thread_calls (world sys) = [] \<or> thread_calls (world sys) = [Enter_call]
      \<or> thread_calls (world sys) = expected_calls m (world sys)"
    by (simp add: adapter_invariant_def thread_calls_prefix)
  {
    assume "use_over (use sys)"
    with inv show "worker (run_thread 2 m (world sys)) = Finished"
      and "thread_calls (run_thread 2 m (world sys)) = expected_calls m (world sys)"
      by (simp_all add: thread_completes)
  }
  {
    fix e
    assume "use sys = EnterRaised e \<and> cancelled_or_timeout e"
    with inv show "finish_evt (self (world sys))"
      and "finish_args (self (world sys)) = [PyNone, PyNone, PyNone]"
      by (simp_all add: adapter_invariant_def use_invariant_def Let_def)
  }
qed

text \<open>
  The task is cancelled while it waits for entry, before the thread has moved: the
  thread then enters and exits, once each, with the exit arguments of the cancellation.
\<close>

theorem adapter_enter_exit_once_witness:
  "\<exists>sys. adapter_run working_manager [DoEnter, CancelTask] (adapter_boot a_lock) = Some sys
     \<and> use sys = EnterRaised CancelledError
     \<and> worker (world sys) = AtStart
     \<and> thread_calls (world sys) = []
     \<and> worker (run_thread 2 working_manager (world sys)) = Finished
     \<and> thread_calls (run_thread 2 working_manager (world sys)) =
         [Enter_call, Exit_call [PyNone, PyNone, PyNone]]
     \<and> finish_evt (self (world sys))"
proof -
  have "\<exists>sys. adapter_run working_manager [DoEnter, CancelTask] (adapter_boot a_lock) = Some sys
     \<and> use sys = EnterRaised CancelledError \<and> worker (world sys) = AtStart
     \<and> thread_calls (world sys) = []"
    by (simp add: adapter_boot_def contextadapt_init_def Future_init_def aenter_eq aenter_cont_def
        wake_task_def cancel_enter_def)
  then obtain sys where
    r: "adapter_run working_manager [DoEnter, CancelTask] (adapter_boot a_lock) = Some sys"
    and u: "use sys = EnterRaised CancelledError" and w: "worker (world sys) = AtStart"
    and c: "thread_calls (world sys) = []"
    by auto
  from adapter_enter_exit_once [of working_manager "[DoEnter, CancelTask]" a_lock sys] r u
  have "worker (run_thread 2 working_manager (world sys)) = Finished"
    and "thread_calls (run_thread 2 working_manager (world sys)) =
         [Enter_call, Exit_call [PyNone, PyNone, PyNone]]"
    and "finish_evt (self (world sys))"
    by (simp_all add: cancelled_or_timeout_def expected_calls_def working_manager_def)
  with r u w c show ?thesis by (intro exI conjI)
qed

section \<open>Properties of abide\<close>



section \<open>Properties of Condition\<close>

lemma Condition_acquire_eq:
  "Condition_acquire t s =
     (if lock_acquired (cond_lock (obj s))
      then Suspend ''LOCK_ACQUIRE'' (lock_queue (\<lambda>q. q @ [t]) s) (acquire_cont t)
      else Return PyNone (lock_taken s))"
  by (cases s)
    (auto simp: Condition_acquire_def Lock_acquire_def wait_on_queue_def the_lock_def set_lock_def
      lock_queue_def lock_taken_def acquire_cont_def fun_eq_iff split: wake.splits)

lemma Condition_release_eq:
  "Condition_release s =
     (if \<not> lock_acquired (cond_lock (obj s)) then Raise (AssertionError ''Lock not acquired'') s
      else if lock_waiting (cond_lock (obj s)) \<noteq> []
      then Return PyNone ((lock_queue (drop 1) s)\<lparr>ready := ready s @ take 1 (lock_waiting (cond_lock (obj s)))\<rparr>)
      else Return PyNone (s\<lparr>obj := (obj s)\<lparr>cond_lock := (cond_lock (obj s))\<lparr>lock_acquired := False\<rparr>\<rparr>\<rparr>))"
  by (cases s)
    (auto simp: Condition_release_def Lock_release_def reschedule_tasks_def the_lock_def set_lock_def
      lock_queue_def)

lemma Condition_wait_eq:
  "Condition_wait t s =
     (if \<not> lock_acquired (cond_lock (obj s))
      then Raise (RuntimeError ''Can't wait on unacquired lock'') s
      else Suspend ''COND_WAIT''
             (cond_queue (\<lambda>q. q @ [t])
                (if lock_waiting (cond_lock (obj s)) \<noteq> []
                 then (lock_queue (drop 1) s)\<lparr>ready := ready s @ take 1 (lock_waiting (cond_lock (obj s)))\<rparr>
                 else s\<lparr>obj := (obj s)\<lparr>cond_lock := (cond_lock (obj s))\<lparr>lock_acquired := False\<rparr>\<rparr>\<rparr>))
             (wait_cont t))"
  by (auto simp: Condition_wait_def Condition_locked_def Lock_locked_def the_lock_def
      Condition_release_eq Condition_acquire_eq wait_on_queue_def cond_queue_def wait_cont_def
      reacquire_cont_def acquire_cont_def lock_queue_def lock_taken_def fun_eq_iff Let_def
      split: wake.splits)

lemma in_take_or_drop: "x \<in> set q \<Longrightarrow> x \<in> set (take n q) \<or> x \<in> set (drop n q)"
  by (metis Un_iff append_take_drop_id set_append)

lemma exit_as_state [simp]: "coro_state (exit_as w s) = s"
  by (cases w) simp_all

lemma exit_as_not_suspend [simp]: "exit_as w s \<noteq> Suspend tag s' k"
  by (cases w) simp_all

lemma segment_acquire:
  "lock_invariant (cond_lock (obj s)) \<Longrightarrow> segment_ok t CAcquire s (Condition_acquire t s)"
  by (auto simp: segment_ok_def Condition_acquire_eq lock_invariant_def lock_queue_def
      lock_taken_def on_lock_def parked_ok_def)

lemma segment_release:
  "lock_invariant (cond_lock (obj s)) \<Longrightarrow> segment_ok t CRelease s (Condition_release s)"
  by (auto simp: segment_ok_def Condition_release_eq lock_invariant_def lock_queue_def
      on_lock_def dest: in_take_or_drop [where n = 1])

lemma segment_wait:
  "lock_invariant (cond_lock (obj s)) \<Longrightarrow> segment_ok t CWait s (Condition_wait t s)"
  by (auto simp: segment_ok_def Condition_wait_eq lock_invariant_def lock_queue_def
      cond_queue_def on_lock_def parked_ok_def dest: in_take_or_drop [where n = 1])

lemma segment_notify:
  "lock_invariant (cond_lock (obj s)) \<Longrightarrow> segment_ok t c s (Condition_notify n s)"
  by (auto simp: segment_ok_def Condition_notify_def reschedule_tasks_def lock_invariant_def
      on_lock_def)

lemma segment_run:
  "lock_invariant (cond_lock (obj s)) \<Longrightarrow> segment_ok t c s (Condition_run c t s)"
  by (cases c)
    (simp_all add: segment_acquire segment_release segment_wait segment_notify
      Condition_notify_all_def)

lemma segment_acquire_cont:
  "lock_invariant (cond_lock (obj s)) \<Longrightarrow> segment_ok t c s (acquire_cont t w s)"
  by (cases w)
    (auto simp: segment_ok_def acquire_cont_def lock_invariant_def lock_queue_def
      lock_taken_def on_lock_def)

lemma segment_reacquire_cont:
  "lock_invariant (cond_lock (obj s)) \<Longrightarrow> segment_ok t c s (reacquire_cont t w1 w s)"
  by (cases w)
    (auto simp: segment_ok_def reacquire_cont_def lock_invariant_def lock_queue_def
      lock_taken_def on_lock_def)

lemma segment_wait_cont:
  "lock_invariant (cond_lock (obj s)) \<Longrightarrow> segment_ok t CWait s (wait_cont t w s)"
  by (cases w)
    (auto simp: segment_ok_def wait_cont_def lock_invariant_def lock_queue_def cond_queue_def
      lock_taken_def on_lock_def parked_ok_def Let_def)

lemma segment_parked:
  "parked_ok t c k s0 \<Longrightarrow> lock_invariant (cond_lock (obj s)) \<Longrightarrow> segment_ok t c s (k w s)"
  by (auto simp: parked_ok_def segment_acquire_cont segment_reacquire_cont segment_wait_cont)

lemma settle_condition:
  assumes inv: "condition_system_invariant sys"
    and seg: "segment_ok t c (state sys) r"
    and st: "settle t c r sys = (sys', ob)"
  shows "condition_system_invariant sys'"
proof -
  have other: "parked_ok t' c' k' (coro_state r)"
    if "suspended sys t' = Some (c', k')" and "t' \<noteq> t" for t' c' k'
  proof -
    from inv that(1) have "parked_ok t' c' k' (state sys)"
      by (simp add: condition_system_invariant_def)
    with seg that(2) show ?thesis
      by (auto simp: parked_ok_def segment_ok_def)
  qed
  from seg st other show ?thesis
    by (cases r) (auto simp: condition_system_invariant_def segment_ok_def split: if_splits)
qed

lemma settle_observed:
  "settle t c r sys = (sys', ob) \<Longrightarrow> state sys' = coro_state r \<and> ob = (t, c, coro_outcome r)"
  by (cases r) auto

lemma segment_after_resume:
  "segment_ok t c (s\<lparr>ready := remove1 t (ready s)\<rparr>) r \<Longrightarrow> segment_ok t c s r"
  by (auto simp: segment_ok_def on_lock_def)

lemma condition_step_invariant:
  assumes inv: "condition_system_invariant sys"
    and step: "kernel_step Condition_run e sys = Some (sys', ob)"
  shows "condition_system_invariant sys'"
proof -
  from inv have li: "lock_invariant (cond_lock (obj (state sys)))"
    by (simp add: condition_system_invariant_def)
  show ?thesis
  proof (cases e)
    case (Call t c)
    with step have st: "settle t c (Condition_run c t (state sys)) sys = (sys', ob)"
      by (auto split: option.splits)
    from li have "segment_ok t c (state sys) (Condition_run c t (state sys))"
      by (rule segment_run)
    with inv show ?thesis using st by (rule settle_condition)
  next
    case (Resume t)
    let ?s = "(state sys)\<lparr>ready := remove1 t (ready (state sys))\<rparr>"
    from Resume step obtain c k where sus: "suspended sys t = Some (c, k)"
      and st: "settle t c (k Resumed ?s) sys = (sys', ob)"
      by (auto split: option.splits if_splits)
    from inv sus have "parked_ok t c k (state sys)"
      by (simp add: condition_system_invariant_def)
    moreover from li have "lock_invariant (cond_lock (obj ?s))" by simp
    ultimately have "segment_ok t c ?s (k Resumed ?s)" by (rule segment_parked)
    then have "segment_ok t c (state sys) (k Resumed ?s)" by (rule segment_after_resume)
    with inv show ?thesis using st by (rule settle_condition)
  next
    case (Cancel t)
    with step obtain c k where sus: "suspended sys t = Some (c, k)"
      and st: "settle t c (k Cancelled (state sys)) sys = (sys', ob)"
      by (auto simp: deliver_def split: option.splits if_splits)
    from inv sus have "parked_ok t c k (state sys)"
      by (simp add: condition_system_invariant_def)
    then have "segment_ok t c (state sys) (k Cancelled (state sys))" using li by (rule segment_parked)
    with inv show ?thesis using st by (rule settle_condition)
  next
    case (Timeout t)
    with step obtain c k where sus: "suspended sys t = Some (c, k)"
      and st: "settle t c (k TimedOut (state sys)) sys = (sys', ob)"
      by (auto simp: deliver_def split: option.splits if_splits)
    from inv sus have "parked_ok t c k (state sys)"
      by (simp add: condition_system_invariant_def)
    then have "segment_ok t c (state sys) (k TimedOut (state sys))" using li by (rule segment_parked)
    with inv show ?thesis using st by (rule settle_condition)
  qed
qed

lemma condition_run_invariant:
  "condition_system_invariant sys \<Longrightarrow> kernel_run Condition_run es sys = Some (sys', obs) \<Longrightarrow>
   condition_system_invariant sys'"
proof (induction es arbitrary: sys obs)
  case Nil
  then show ?case by simp
next
  case (Cons e es)
  from Cons.prems(2) obtain sys1 ob obs1 where
    step: "kernel_step Condition_run e sys = Some (sys1, ob)" and
    rest: "kernel_run Condition_run es sys1 = Some (sys', obs1)"
    by (auto split: option.splits)
  from Cons.prems(1) step have "condition_system_invariant sys1"
    by (rule condition_step_invariant)
  then show ?case using rest by (rule Cons.IH)
qed

lemma wait_cont_exit:
  "(\<forall>v. coro_outcome (wait_cont t w s) = Returned v \<longrightarrow> Condition_locked (coro_state (wait_cont t w s)))
   \<and> (\<forall>x. coro_outcome (wait_cont t w s) = Raised x \<longrightarrow>
        (x = CancelledError \<or> x = TaskTimeout) \<and> Condition_locked (coro_state (wait_cont t w s)))"
  by (cases w)
    (auto simp: wait_cont_def Let_def Condition_locked_def Lock_locked_def the_lock_def
      lock_taken_def)

lemma reacquire_cont_exit:
  assumes "w = Resumed \<or> (lock_invariant (cond_lock (obj s)) \<and> t \<in> set (lock_waiting (cond_lock (obj s))))"
  shows "(\<forall>v. coro_outcome (reacquire_cont t w1 w s) = Returned v \<longrightarrow>
            Condition_locked (coro_state (reacquire_cont t w1 w s)))
   \<and> (\<forall>x. coro_outcome (reacquire_cont t w1 w s) = Raised x \<longrightarrow>
        (x = CancelledError \<or> x = TaskTimeout) \<and> Condition_locked (coro_state (reacquire_cont t w1 w s)))"
  using assms
  by (cases w; cases w1)
    (auto simp: reacquire_cont_def Condition_locked_def Lock_locked_def the_lock_def
      lock_taken_def lock_queue_def lock_invariant_def)

lemma condition_wait_exit:
  assumes inv: "condition_system_invariant sys"
    and step: "kernel_step Condition_run e sys = Some (sys', (t, CWait, out))"
  shows "(\<forall>v. out = Returned v \<longrightarrow> Condition_locked (state sys'))
   \<and> (\<forall>x. out = Raised x \<longrightarrow>
        (if e = Call t CWait
         then x = RuntimeError ''Can't wait on unacquired lock'' \<and> \<not> Condition_locked (state sys)
              \<and> state sys' = state sys
         else (x = CancelledError \<or> x = TaskTimeout) \<and> Condition_locked (state sys')))"
proof -
  from inv have li: "lock_invariant (cond_lock (obj (state sys)))"
    by (simp add: condition_system_invariant_def)
  have parked: "k = wait_cont t' \<or> (\<exists>w1. k = reacquire_cont t' w1 \<and> on_lock t' (state sys))"
    if "suspended sys t' = Some (CWait, k)" for t' k
    using inv that by (auto simp: condition_system_invariant_def parked_ok_def)
  show ?thesis
  proof (cases e)
    case (Call t' c)
    with step have st: "settle t' c (Condition_run c t' (state sys)) sys = (sys', (t, CWait, out))"
      by (auto split: option.splits)
    from settle_observed [OF st] have "t' = t" "c = CWait"
      and "state sys' = coro_state (Condition_wait t (state sys))"
      and "out = coro_outcome (Condition_wait t (state sys))"
      by auto
    with Call show ?thesis
      by (auto simp: Condition_wait_eq Condition_locked_def Lock_locked_def the_lock_def
          split: if_splits)
  next
    case (Resume t')
    let ?s = "(state sys)\<lparr>ready := remove1 t' (ready (state sys))\<rparr>"
    from Resume step obtain c k where sus: "suspended sys t' = Some (c, k)"
      and st: "settle t' c (k Resumed ?s) sys = (sys', (t, CWait, out))"
      by (auto split: option.splits if_splits)
    from settle_observed [OF st] have eq: "t' = t" "c = CWait"
      "state sys' = coro_state (k Resumed ?s)" "out = coro_outcome (k Resumed ?s)"
      by auto
    from parked sus eq(2) consider "k = wait_cont t'" | w1 where "k = reacquire_cont t' w1"
      by blast
    then show ?thesis
    proof cases
      case 1
      with eq Resume show ?thesis using wait_cont_exit [of t Resumed ?s] by simp
    next
      case 2
      with eq Resume show ?thesis using reacquire_cont_exit [of Resumed ?s t w1] by simp
    qed
  next
    case (Cancel t')
    with step obtain c k where sus: "suspended sys t' = Some (c, k)"
      and nr: "t' \<notin> set (ready (state sys))"
      and st: "settle t' c (k Cancelled (state sys)) sys = (sys', (t, CWait, out))"
      by (auto simp: deliver_def split: option.splits if_splits)
    from settle_observed [OF st] have eq: "t' = t" "c = CWait"
      "state sys' = coro_state (k Cancelled (state sys))" "out = coro_outcome (k Cancelled (state sys))"
      by auto
    from parked sus eq(2) consider "k = wait_cont t'"
      | w1 where "k = reacquire_cont t' w1" "on_lock t' (state sys)"
      by blast
    then show ?thesis
    proof cases
      case 1
      with eq Cancel show ?thesis using wait_cont_exit [of t Cancelled "state sys"] by simp
    next
      case 2
      with nr have "t' \<in> set (lock_waiting (cond_lock (obj (state sys))))"
        by (simp add: on_lock_def)
      with 2 eq Cancel li show ?thesis
        using reacquire_cont_exit [of Cancelled "state sys" t w1] by simp
    qed
  next
    case (Timeout t')
    with step obtain c k where sus: "suspended sys t' = Some (c, k)"
      and nr: "t' \<notin> set (ready (state sys))"
      and st: "settle t' c (k TimedOut (state sys)) sys = (sys', (t, CWait, out))"
      by (auto simp: deliver_def split: option.splits if_splits)
    from settle_observed [OF st] have eq: "t' = t" "c = CWait"
      "state sys' = coro_state (k TimedOut (state sys))" "out = coro_outcome (k TimedOut (state sys))"
      by auto
    from parked sus eq(2) consider "k = wait_cont t'"
      | w1 where "k = reacquire_cont t' w1" "on_lock t' (state sys)"
      by blast
    then show ?thesis
    proof cases
      case 1
      with eq Timeout show ?thesis using wait_cont_exit [of t TimedOut "state sys"] by simp
    next
      case 2
      with nr have "t' \<in> set (lock_waiting (cond_lock (obj (state sys))))"
        by (simp add: on_lock_def)
      with 2 eq Timeout li show ?thesis
        using reacquire_cont_exit [of TimedOut "state sys" t w1] by simp
    qed
  qed
qed

text \<open>
  What holds of \<^verbatim>\<open>Condition.wait\<close>. Called without the lock held it raises the
  \<^verbatim>\<open>RuntimeError\<close> and changes nothing; called with the lock held it releases the lock
  as \<^verbatim>\<open>release\<close> does and suspends on the condition's queue.
\<close>

lemma Condition_wait_call:
  "(\<not> Condition_locked s \<longrightarrow>
      Condition_wait t s = Raise (RuntimeError ''Can't wait on unacquired lock'') s)
   \<and> (Condition_locked s \<longrightarrow>
      (\<exists>v s1 k. Condition_release s = Return v s1 \<and>
         Condition_wait t s =
           Suspend ''COND_WAIT'' (s1\<lparr>obj := (obj s1)\<lparr>cond_waiting := cond_waiting (obj s1) @ [t]\<rparr>\<rparr>) k))"
  by (auto simp: Condition_wait_eq Condition_release_eq Condition_locked_def Lock_locked_def
      the_lock_def cond_queue_def)

text \<open>
  In every run, whenever a call of \<^verbatim>\<open>wait\<close> gives control back after having been
  suspended, the lock is held by some task; and it raises nothing but the cancellation
  or the timeout.
\<close>

lemma Condition_wait_exits_locked:
  assumes "lock_invariant (cond_lock (Condition_init l))"
    and "kernel_run Condition_run es (boot (Condition_init l)) = Some (sys, obs)"
    and "kernel_step Condition_run e sys = Some (sys', (t, CWait, out))"
  shows "(\<forall>v. out = Returned v \<longrightarrow> Condition_locked (state sys'))
   \<and> (\<forall>x. out = Raised x \<longrightarrow>
        (if e = Call t CWait
         then x = RuntimeError ''Can't wait on unacquired lock'' \<and> \<not> Condition_locked (state sys)
              \<and> state sys' = state sys
         else (x = CancelledError \<or> x = TaskTimeout) \<and> Condition_locked (state sys')))"
proof -
  from assms(1) have "condition_system_invariant (boot (Condition_init l))"
    by (simp add: condition_system_invariant_def boot_def)
  then have "condition_system_invariant sys"
    using assms(2) by (rule condition_run_invariant)
  then show ?thesis using assms(3) by (rule condition_wait_exit)
qed

text \<open>
  C3. The lock that is held when \<^verbatim>\<open>wait\<close> gives control back need not have been
  reacquired by the waiter. Task 1 takes the lock and waits; task 2 takes the lock and
  notifies; task 1 is resumed and, in the \<^verbatim>\<open>finally\<close> block, suspends in \<^verbatim>\<open>acquire\<close>
  since task 2 holds the lock; task 1 is cancelled there. \<^verbatim>\<open>wait\<close> then raises
  \<^verbatim>\<open>CancelledError\<close> without \<^verbatim>\<open>acquire\<close> having completed: the lock is held, but by
  task 2. When task 1 releases on its way out (the exit of its \<^verbatim>\<open>async with\<close> block),
  it frees the lock of task 2, and task 3 acquires it at once while task 2 has not
  released it.
\<close>

theorem Condition_wait_cancelled_while_reacquiring:
  "map_option (apfst (cond_lock \<circ> obj \<circ> state))
     (kernel_run Condition_run
        [Call 1 CAcquire, Call 1 CWait, Call 2 CAcquire, Call 2 (CNotify 1), Resume 1, Cancel 1,
         Call 1 CRelease, Call 3 CAcquire]
        (boot (Condition_init None))) =
   Some (\<lparr>lock_acquired = True, lock_waiting = []\<rparr>,
         [(1, CAcquire, Returned PyNone), (1, CWait, Parked ''COND_WAIT''),
          (2, CAcquire, Returned PyNone), (2, CNotify 1, Returned PyNone),
          (1, CWait, Parked ''LOCK_ACQUIRE''), (1, CWait, Raised CancelledError),
          (1, CRelease, Returned PyNone), (3, CAcquire, Returned PyNone)])"
  by (simp add: boot_def Condition_init_def Lock_init_def Condition_acquire_eq Condition_release_eq
      Condition_wait_eq Condition_notify_def Condition_locked_def Lock_locked_def the_lock_def
      reschedule_tasks_def deliver_def wait_cont_def reacquire_cont_def acquire_cont_def
      lock_queue_def cond_queue_def lock_taken_def Let_def)

text \<open>
  C10. When the evaluation of the predicate with which \<^verbatim>\<open>wait_for\<close> starts gives a
  truthy value, \<^verbatim>\<open>wait_for\<close> returns that value at once, in whatever state the
  condition and its lock are: it does not suspend, it raises nothing and the state does
  not change. The test for the lock is in \<^verbatim>\<open>wait\<close> only: when that evaluation gives a
  falsy value and the lock is not held, \<^verbatim>\<open>wait_for\<close> raises the error of \<^verbatim>\<open>wait\<close>.
\<close>

theorem Condition_wait_for_true_first:
  "(predicate i = Inr result \<and> truthy result \<longrightarrow>
      Condition_wait_for (Suc fuel) predicate i t s = Return (Some result) s)
   \<and> (predicate i = Inr result \<and> \<not> truthy result \<and> \<not> Condition_locked s \<longrightarrow>
      Condition_wait_for (Suc fuel) predicate i t s =
        Raise (RuntimeError ''Can't wait on unacquired lock'') s)"
  by (simp add: Condition_wait_def)

theorem Condition_wait_for_true_first_witness:
  "Condition_wait_for (Suc 0) (\<lambda>i. Inr (PyInt 5)) 0 1
      \<lparr>obj = \<lparr>cond_lock = \<lparr>lock_acquired = False, lock_waiting = []\<rparr>, cond_waiting = []\<rparr>,
       ready = []\<rparr> =
     Return (Some (PyInt 5))
      \<lparr>obj = \<lparr>cond_lock = \<lparr>lock_acquired = False, lock_waiting = []\<rparr>, cond_waiting = []\<rparr>,
       ready = []\<rparr>
   \<and> Condition_wait_for (Suc 0) (\<lambda>i. Inr (PyInt 0)) 0 1
      \<lparr>obj = \<lparr>cond_lock = \<lparr>lock_acquired = False, lock_waiting = []\<rparr>, cond_waiting = []\<rparr>,
       ready = []\<rparr> =
     Raise (RuntimeError ''Can't wait on unacquired lock'')
      \<lparr>obj = \<lparr>cond_lock = \<lparr>lock_acquired = False, lock_waiting = []\<rparr>, cond_waiting = []\<rparr>,
       ready = []\<rparr>"
  using
    Condition_wait_for_true_first [of "\<lambda>i. Inr (PyInt 5)" 0 "PyInt 5" 0 1
      "\<lparr>obj = \<lparr>cond_lock = \<lparr>lock_acquired = False, lock_waiting = []\<rparr>, cond_waiting = []\<rparr>,
        ready = []\<rparr>"]
    Condition_wait_for_true_first [of "\<lambda>i. Inr (PyInt 0)" 0 "PyInt 0" 0 1
      "\<lparr>obj = \<lparr>cond_lock = \<lparr>lock_acquired = False, lock_waiting = []\<rparr>, cond_waiting = []\<rparr>,
        ready = []\<rparr>"]
  by (simp add: Condition_locked_def Lock_locked_def the_lock_def)

end
